theory Spec2Isabelle
  imports Main "HOL-Library.Sublist"
begin

section \<open>Characters and the string methods of the script\<close>

text \<open>
  A Python \<open>str\<close> is modelled as a \<^typ>\<open>string\<close>, a \<^typ>\<open>char\<close> being a code point
  below 256. The classes \<open>[A-Z]\<close>, \<open>[a-z]\<close> and \<open>[0-9]\<close> of the script's regular expressions
  are ranges of ASCII; whitespace, the predicates on letters and the case conversions are
  those of Python on the code points below 256. Lower case stays below 256. Title case,
  which \<open>str.capitalize\<close> gives the first character, does not: it takes the micro sign
  to U+039C and the letter y with diaeresis to U+0178, and there the model has no answer
  (\<open>None\<close>).
\<close>

definition is_upper :: "char \<Rightarrow> bool" where
  \<comment> \<open>the class \<open>[A-Z]\<close>\<close>
  "is_upper c \<longleftrightarrow> 65 \<le> (of_char c :: nat) \<and> (of_char c :: nat) \<le> 90"

definition is_lower :: "char \<Rightarrow> bool" where
  \<comment> \<open>the class \<open>[a-z]\<close>\<close>
  "is_lower c \<longleftrightarrow> 97 \<le> (of_char c :: nat) \<and> (of_char c :: nat) \<le> 122"

definition is_digit :: "char \<Rightarrow> bool" where
  \<comment> \<open>the class \<open>[0-9]\<close>\<close>
  "is_digit c \<longleftrightarrow> 48 \<le> (of_char c :: nat) \<and> (of_char c :: nat) \<le> 57"

definition is_space :: "char \<Rightarrow> bool" where
  \<comment> \<open>\<open>\s\<close> of a \<open>str\<close> pattern and \<open>str.isspace\<close>: tab, line feed, vertical tab, form feed,
      carriage return, the four separators 0x1C to 0x1F, the space, the next-line
      control 0x85 and the no-break space 0xA0\<close>
  "is_space c \<longleftrightarrow>
     (9 \<le> (of_char c :: nat) \<and> (of_char c :: nat) \<le> 13) \<or>
     (28 \<le> (of_char c :: nat) \<and> (of_char c :: nat) \<le> 32) \<or>
     (of_char c :: nat) = 133 \<or> (of_char c :: nat) = 160"

definition is_sep :: "char \<Rightarrow> bool" where
  \<comment> \<open>the class \<open>[-_\s]\<close>\<close>
  "is_sep c \<longleftrightarrow> c = CHR ''-'' \<or> c = CHR ''_'' \<or> is_space c"

definition isupper :: "char \<Rightarrow> bool" where
  \<comment> \<open>\<open>str.isupper\<close> of one character: A to Z, and 0xC0 to 0xDE but the
      multiplication sign 0xD7\<close>
  "isupper c \<longleftrightarrow>
     is_upper c \<or>
     (192 \<le> (of_char c :: nat) \<and> (of_char c :: nat) \<le> 222 \<and> (of_char c :: nat) \<noteq> 215)"

definition islower :: "char \<Rightarrow> bool" where
  \<comment> \<open>\<open>str.islower\<close> of one character: a to z, the ordinal indicators 0xAA and 0xBA, the
      micro sign 0xB5, and 0xDF to 0xFF but the division sign 0xF7\<close>
  "islower c \<longleftrightarrow>
     is_lower c \<or> (of_char c :: nat) = 170 \<or> (of_char c :: nat) = 181 \<or>
     (of_char c :: nat) = 186 \<or>
     (223 \<le> (of_char c :: nat) \<and> (of_char c :: nat) \<noteq> 247)"

definition isalpha :: "char \<Rightarrow> bool" where
  \<comment> \<open>\<open>str.isalpha\<close> of one character: below 256 every letter is upper or lower case\<close>
  "isalpha c \<longleftrightarrow> isupper c \<or> islower c"

definition lower_chr :: "char \<Rightarrow> char" where
  \<comment> \<open>\<open>str.lower\<close> of one character: the upper case letters move up by 32\<close>
  "lower_chr c = (if isupper c then char_of (of_char c + 32 :: nat) else c)"

definition title_chr :: "char \<Rightarrow> string option" where
  \<comment> \<open>the title case of one character, as \<open>str.capitalize\<close> gives it to the first
      character: a to z, and 0xE0 to 0xFE but the division sign, move down by 32; the
      sharp s 0xDF becomes \<open>Ss\<close>; the micro sign 0xB5 and y with diaeresis 0xFF leave the
      code points below 256; every other character stays\<close>
  "title_chr c =
     (if (of_char c :: nat) = 181 \<or> (of_char c :: nat) = 255 then None
      else if (of_char c :: nat) = 223 then Some ''Ss''
      else if is_lower c \<or>
              (224 \<le> (of_char c :: nat) \<and> (of_char c :: nat) \<le> 254 \<and> (of_char c :: nat) \<noteq> 247)
           then Some [char_of (of_char c - 32 :: nat)]
      else Some [c])"

definition lower :: "string \<Rightarrow> string" where
  \<comment> \<open>\<open>str.lower\<close>\<close>
  "lower s = map lower_chr s"

fun capitalize :: "string \<Rightarrow> string option" where
  \<comment> \<open>\<open>str.capitalize\<close>: the first character in title case, all the others in lower case\<close>
  "capitalize [] = Some []"
| "capitalize (c # cs) = map_option (\<lambda>t. t @ lower cs) (title_chr c)"

definition strip :: "string \<Rightarrow> string" where
  \<comment> \<open>\<open>str.strip\<close> without argument\<close>
  "strip s = rev (dropWhile is_space (rev (dropWhile is_space s)))"

fun replace_nonempty :: "string \<Rightarrow> string \<Rightarrow> string \<Rightarrow> string" where
  "replace_nonempty old new [] = []"
| "replace_nonempty old new (c # cs) =
     (if prefix old (c # cs) then new @ replace_nonempty old new (drop (length old - 1) cs)
      else c # replace_nonempty old new cs)"

definition replace :: "string \<Rightarrow> string \<Rightarrow> string \<Rightarrow> string" where
  \<comment> \<open>\<open>s.replace(old, new)\<close>: the occurrences of \<open>old\<close> found from left to right without
      overlap; an empty \<open>old\<close> matches before every character and at the end\<close>
  "replace old new s =
     (if old = [] then new @ concat (map (\<lambda>c. c # new) s) else replace_nonempty old new s)"

section \<open>The case derivations\<close>

function re_split :: "string \<Rightarrow> string list" where
  \<comment> \<open>\<open>re.split(r'[-_\s]+', s)\<close>: the text before the leftmost run of separators, then the
      split of what follows that run\<close>
  "re_split s =
     (case dropWhile (\<lambda>c. \<not> is_sep c) s of
        [] \<Rightarrow> [s]
      | m # after \<Rightarrow> takeWhile (\<lambda>c. \<not> is_sep c) s # re_split (dropWhile is_sep after))"
  by pat_completeness auto
termination
proof (relation "measure length")
  fix s :: string and m after
  assume d: "dropWhile (\<lambda>c. \<not> is_sep c) s = m # after"
  have "length (dropWhile is_sep after) \<le> length after"
    by (rule length_dropWhile_le)
  also have "length after < length (dropWhile (\<lambda>c. \<not> is_sep c) s)"
    by (simp add: d)
  also have "\<dots> \<le> length s"
    by (rule length_dropWhile_le)
  finally show "(dropWhile is_sep after, s) \<in> measure length"
    by simp
qed simp

declare re_split.simps [simp del]

definition to_pascal_case :: "string \<Rightarrow> string option" where
  \<comment> \<open>\<open>None\<close> when the title case of a word's first character is not below 256\<close>
  "to_pascal_case name = map_option concat (those (map capitalize (re_split name)))"

definition to_camel_case :: "string \<Rightarrow> string option" where
  "to_camel_case name =
     map_option (\<lambda>pascal. case pascal of [] \<Rightarrow> [] | c # cs \<Rightarrow> lower [c] @ cs)
       (to_pascal_case name)"

function kebab_s1 :: "string \<Rightarrow> string" where
  \<comment> \<open>\<open>re.sub('(.)([A-Z][a-z]+)', r'\1-\2', name)\<close>: scanning from the left, a character
      other than the line feed, followed by a capital and the longest run of at least one
      small letter, gets a hyphen after it, and the scan resumes behind the run\<close>
  "kebab_s1 (c # u # l # rest) =
     (if c \<noteq> CHR 0x0A \<and> is_upper u \<and> is_lower l
      then c # CHR ''-'' # u # l # takeWhile is_lower rest @ kebab_s1 (dropWhile is_lower rest)
      else c # kebab_s1 (u # l # rest))"
| "kebab_s1 [c, u] = [c, u]"
| "kebab_s1 [c] = [c]"
| "kebab_s1 [] = []"
  by pat_completeness auto
termination
  by (relation "measure length") (auto simp: less_Suc_eq_le le_SucI length_dropWhile_le)

fun kebab_s2 :: "string \<Rightarrow> string" where
  \<comment> \<open>\<open>re.sub('([a-z0-9])([A-Z])', r'\1-\2', s1)\<close>\<close>
  "kebab_s2 (c # u # rest) =
     (if (is_lower c \<or> is_digit c) \<and> is_upper u
      then c # CHR ''-'' # u # kebab_s2 rest
      else c # kebab_s2 (u # rest))"
| "kebab_s2 s = s"

definition to_kebab_case :: "string \<Rightarrow> string" where
  "to_kebab_case name =
     (let s1 = kebab_s1 name;
          s2 = kebab_s2 s1
      in replace '' '' ''-'' (replace ''_'' ''-'' (lower s2)))"

definition to_package_name :: "string \<Rightarrow> string" where
  \<comment> \<open>\<open>re.sub(r'[-_\s]+', '', name).lower()\<close>: deleting every run of separators deletes
      every separator\<close>
  "to_package_name name = lower (filter (\<lambda>c. \<not> is_sep c) name)"

section \<open>Splitting and joining\<close>

fun split_on :: "char \<Rightarrow> string \<Rightarrow> string list" where
  \<comment> \<open>\<open>s.split(d)\<close> for a separator \<open>d\<close> of one character\<close>
  "split_on d [] = [[]]"
| "split_on d (c # cs) =
     (if c = d then [] # split_on d cs
      else (c # hd (split_on d cs)) # tl (split_on d cs))"

fun join :: "string \<Rightarrow> string list \<Rightarrow> string" where
  \<comment> \<open>\<open>sep.join(ws)\<close>\<close>
  "join sep [] = []"
| "join sep [w] = w"
| "join sep (w # v # ws) = w @ sep @ join sep (v # ws)"

section \<open>The replacement pass over a text\<close>


definition apply_replacements :: "(string \<times> string) list \<Rightarrow> string \<Rightarrow> string" where
  \<comment> \<open>the inner loop of \<open>replace_in_files\<close>:
      \<open>for old, new in replacements.items(): changed = changed.replace(old, new)\<close>,
      the dictionary being the list of its items in insertion order\<close>
  "apply_replacements replacements text =
     foldl (\<lambda>changed (old, new). replace old new changed) text replacements"



section \<open>Names in kebab-case form\<close>

text \<open>
  The round trip through PascalCase is stated for names in kebab-case form: words joined
  by single hyphens, a word being a lowercase letter followed by lowercase letters and
  digits. \<open>boundaries_ok\<close> is the side condition the round trip turns out to need: a word
  of one letter is followed, if by anything, by a word whose second character is a letter.
\<close>

definition is_word :: "string \<Rightarrow> bool" where
  "is_word w \<longleftrightarrow> w \<noteq> [] \<and> is_lower (hd w) \<and> (\<forall>c\<in>set w. is_lower c \<or> is_digit c)"

definition is_kebab_form :: "string \<Rightarrow> bool" where
  "is_kebab_form name \<longleftrightarrow> (\<forall>w\<in>set (split_on (CHR ''-'') name). is_word w)"

fun boundaries_ok :: "string list \<Rightarrow> bool" where
  "boundaries_ok (u # v # ws) =
     ((2 \<le> length u \<or> (2 \<le> length v \<and> is_lower (v ! 1))) \<and> boundaries_ok (v # ws))"
| "boundaries_ok [u] = True"
| "boundaries_ok [] = True"

text \<open>
  What the two substitutions of \<open>to_kebab_case\<close> achieve together on such names: \<open>hyph0\<close>
  puts a hyphen before every capital but the first character. \<open>bnd_ok\<close> says that every
  capital after the first character is preceded by a small letter or a digit, or is
  preceded by a character other than the line feed and followed by a small letter; and
  \<open>phg s t\<close> that \<open>t\<close> is \<open>s\<close> with hyphens before some of its capitals, every capital left
  without one being preceded by a small letter or a digit.
\<close>

fun hyph :: "string \<Rightarrow> string" where
  "hyph [] = []"
| "hyph (u # s) = (if is_upper u then CHR ''-'' # u # hyph s else u # hyph s)"

fun hyph0 :: "string \<Rightarrow> string" where
  "hyph0 [] = []"
| "hyph0 (c # s) = c # hyph s"

fun bnd_ok :: "string \<Rightarrow> bool" where
  "bnd_ok (p # u # rest) =
     ((is_upper u \<longrightarrow> is_lower p \<or> is_digit p \<or>
         (p \<noteq> CHR 0x0A \<and> (case rest of [] \<Rightarrow> False | l # _ \<Rightarrow> is_lower l))) \<and>
      bnd_ok (u # rest))"
| "bnd_ok s = True"

inductive phg :: "string \<Rightarrow> string \<Rightarrow> bool" where
  phg_Nil: "phg [] []"
| phg_One: "phg [c] [c]"
| phg_Hyphen: "phg (u # s) t \<Longrightarrow> is_upper u \<Longrightarrow> phg (c # u # s) (c # CHR ''-'' # t)"
| phg_Plain: "phg (d # s) t \<Longrightarrow> (is_upper d \<longrightarrow> is_lower c \<or> is_digit c) \<Longrightarrow>
     phg (c # d # s) (c # t)"

text \<open>
  The PascalCase form of a list of such words: each word with its first letter, one of a
  to z, moved down by 32.
\<close>

definition cap_chr :: "char \<Rightarrow> char" where
  "cap_chr c = char_of (of_char c - 32 :: nat)"

definition cap_word :: "string \<Rightarrow> string" where
  "cap_word w = cap_chr (hd w) # tl w"

definition pascal_of :: "string list \<Rightarrow> string" where
  "pascal_of ws = concat (map cap_word ws)"

section \<open>The filesystem, the terminal and the exceptions\<close>

text \<open>
  The script acts on the filesystem through \<open>pathlib\<close> and \<open>shutil\<close>, and on the terminal
  through \<open>input\<close> and \<open>print\<close>. The library calls are parameters of the model, gathered
  in a record \<open>os_api\<close> over a type \<open>'fs\<close> of filesystem states and a type \<open>'p\<close> of paths,
  one field for each call the script makes; a call that changes the filesystem returns the
  new state together with the exception it raised, if any. A \<open>world\<close> holds the
  filesystem, the lines still to be read from the standard input, the characters written
  to the standard output, and the list \<open>fs_calls\<close> of the changing calls made so far, in
  order, whether they succeeded or not. A statement of the script is a function from the
  world to a result or a raised exception, and the world after it.
\<close>

datatype py_exn = SystemExit string | EOFError | UnicodeDecodeError | OSError | Unrepresentable
  \<comment> \<open>\<open>OSError\<close> stands for the class and its subclasses, \<open>shutil.Error\<close> among them.
      \<open>Unrepresentable\<close> is no exception of Python: it ends a run of the model in which a
      derived name is not a string of code points below 256\<close>

datatype 'p fs_call =
    Mkdir 'p
  | Move string string
  | Rmdir 'p
  | Rename 'p 'p
  | WriteText 'p string

record ('fs, 'p) os_api =
  path_of :: "string list \<Rightarrow> 'p"  \<comment> \<open>\<open>Path(*parts)\<close>\<close>
  joinpath :: "'p \<Rightarrow> 'p \<Rightarrow> 'p"  \<comment> \<open>\<open>p / q\<close>\<close>
  parent :: "'p \<Rightarrow> 'p"  \<comment> \<open>\<open>p.parent\<close>\<close>
  name_of :: "'p \<Rightarrow> string"  \<comment> \<open>\<open>p.name\<close>\<close>
  str_of :: "'p \<Rightarrow> string"  \<comment> \<open>\<open>str(p)\<close>\<close>
  exists :: "'p \<Rightarrow> 'fs \<Rightarrow> bool"  \<comment> \<open>\<open>p.exists()\<close>\<close>
  glob :: "'p \<Rightarrow> string \<Rightarrow> 'fs \<Rightarrow> 'p list"  \<comment> \<open>\<open>list(p.glob(pattern))\<close>\<close>
  rglob :: "'p \<Rightarrow> string \<Rightarrow> 'fs \<Rightarrow> 'p list"  \<comment> \<open>\<open>list(p.rglob(pattern))\<close>\<close>
  read_text :: "'p \<Rightarrow> 'fs \<Rightarrow> py_exn + string"  \<comment> \<open>\<open>p.read_text(encoding="utf-8")\<close>\<close>
  mkdir_parents :: "'p \<Rightarrow> 'fs \<Rightarrow> (py_exn + unit) \<times> 'fs"
    \<comment> \<open>\<open>p.mkdir(parents=True, exist_ok=True)\<close>\<close>
  move :: "string \<Rightarrow> string \<Rightarrow> 'fs \<Rightarrow> (py_exn + unit) \<times> 'fs"  \<comment> \<open>\<open>shutil.move(src, dst)\<close>\<close>
  rmdir :: "'p \<Rightarrow> 'fs \<Rightarrow> (py_exn + unit) \<times> 'fs"  \<comment> \<open>\<open>p.rmdir()\<close>\<close>
  rename :: "'p \<Rightarrow> 'p \<Rightarrow> 'fs \<Rightarrow> (py_exn + unit) \<times> 'fs"  \<comment> \<open>\<open>p.rename(q)\<close>\<close>
  write_text :: "'p \<Rightarrow> string \<Rightarrow> 'fs \<Rightarrow> (py_exn + unit) \<times> 'fs"
    \<comment> \<open>\<open>p.write_text(text, encoding="utf-8")\<close>\<close>

record ('fs, 'p) world =
  filesystem :: 'fs
  fs_calls :: "'p fs_call list"
  stdin :: "string list"
  stdout :: string

type_synonym ('fs, 'p, 'a) prog = "('fs, 'p) world \<Rightarrow> (py_exn + 'a) \<times> ('fs, 'p) world"

definition ret :: "'a \<Rightarrow> ('fs, 'p, 'a) prog" where
  "ret x w = (Inr x, w)"

definition raise :: "py_exn \<Rightarrow> ('fs, 'p, 'a) prog" where
  "raise e w = (Inl e, w)"

definition and_then :: "('fs, 'p, 'a) prog \<Rightarrow> ('a \<Rightarrow> ('fs, 'p, 'b) prog) \<Rightarrow> ('fs, 'p, 'b) prog" where
  \<comment> \<open>one statement after another: an exception raised by the first ends the sequence\<close>
  "and_then m k w = (case m w of (Inl e, w') \<Rightarrow> (Inl e, w') | (Inr x, w') \<Rightarrow> k x w')"

definition except_OSError :: "('fs, 'p, unit) prog \<Rightarrow> ('fs, 'p, unit) prog" where
  \<comment> \<open>\<open>try: m except OSError: pass\<close>\<close>
  "except_OSError m w = (case m w of (Inl OSError, w') \<Rightarrow> (Inr (), w') | r \<Rightarrow> r)"

fun for_each :: "'a list \<Rightarrow> ('a \<Rightarrow> ('fs, 'p, unit) prog) \<Rightarrow> ('fs, 'p, unit) prog" where
  \<comment> \<open>\<open>for x in xs: body\<close>\<close>
  "for_each [] body = ret ()"
| "for_each (x # xs) body = and_then (body x) (\<lambda>_. for_each xs body)"

definition fs_get :: "('fs \<Rightarrow> 'a) \<Rightarrow> ('fs, 'p, 'a) prog" where
  \<comment> \<open>a library call that reads the filesystem\<close>
  "fs_get f w = (Inr (f (filesystem w)), w)"

definition fs_do :: "'p fs_call \<Rightarrow> ('fs \<Rightarrow> (py_exn + unit) \<times> 'fs) \<Rightarrow> ('fs, 'p, unit) prog" where
  \<comment> \<open>a library call that changes the filesystem, recorded in \<open>fs_calls\<close>\<close>
  "fs_do call op w =
     (case op (filesystem w) of
        (r, fs') \<Rightarrow> (r, w\<lparr>filesystem := fs', fs_calls := fs_calls w @ [call]\<rparr>))"

definition print :: "string \<Rightarrow> ('fs, 'p, unit) prog" where
  "print s w = (Inr (), w\<lparr>stdout := stdout w @ s @ [CHR 0x0A]\<rparr>)"

definition input :: "string \<Rightarrow> ('fs, 'p, string) prog" where
  \<comment> \<open>\<open>input(msg)\<close>: writes the message and reads a line, \<open>EOFError\<close> when there is none\<close>
  "input msg w =
     (let w1 = w\<lparr>stdout := stdout w @ msg\<rparr>
      in case stdin w1 of
           [] \<Rightarrow> (Inl EOFError, w1)
         | line # rest \<Rightarrow> (Inr line, w1\<lparr>stdin := rest\<rparr>))"

definition prompt :: "string \<Rightarrow> string \<Rightarrow> ('fs, 'p, string) prog" where
  \<comment> \<open>\<open>val = input(f"{msg} [{default}]: ").strip(); return val or default\<close>\<close>
  "prompt msg dflt =
     and_then (input (msg @ '' ['' @ dflt @ '']: ''))
       (\<lambda>line. let val = strip line in ret (if val \<noteq> [] then val else dflt))"

definition print_all :: "string list \<Rightarrow> ('fs, 'p, unit) prog" where
  "print_all lines = for_each lines print"

section \<open>The script\<close>

definition replace_in_file ::
  "('fs, 'p) os_api \<Rightarrow> (string \<times> string) list \<Rightarrow> 'p \<Rightarrow> ('fs, 'p, unit) prog" where
  \<comment> \<open>the body of the loop of \<open>replace_in_files\<close>, for one file\<close>
  "replace_in_file api replacements file =
     and_then (fs_get (exists api file)) (\<lambda>present.
       if \<not> present then ret ()
       else and_then (fs_get (read_text api file)) (\<lambda>r.
         case r of
           Inl UnicodeDecodeError \<Rightarrow> ret ()
         | Inl e \<Rightarrow> raise e
         | Inr text \<Rightarrow>
             (let changed = apply_replacements replacements text
              in if changed \<noteq> text
                 then and_then (fs_do (WriteText file changed) (write_text api file changed))
                        (\<lambda>_. print (''  Updated: '' @ str_of api file))
                 else ret ())))"

definition replace_in_files ::
  "('fs, 'p) os_api \<Rightarrow> 'p list \<Rightarrow> (string \<times> string) list \<Rightarrow> ('fs, 'p, unit) prog" where
  "replace_in_files api files replacements =
     for_each files (replace_in_file api replacements)"

definition old_package :: string where
  "old_package = ''com.kingsrook.qbits.todo''"

definition replacements_table ::
  "string \<Rightarrow> string \<Rightarrow> string \<Rightarrow> string \<Rightarrow> string \<Rightarrow> (string \<times> string) list" where
  \<comment> \<open>the dictionary \<open>replacements\<close> of \<open>main\<close>, as the list of its items in insertion
      order; its keys are thirteen different strings\<close>
  "replacements_table new_package pascal_name camel_name artifact_id github_org =
     [(''package '' @ old_package, ''package '' @ new_package),
      (''import '' @ old_package @ ''.'', ''import '' @ new_package @ ''.''),
      (old_package, new_package),
      (''TodoQBitConfig'', pascal_name @ ''QBitConfig''),
      (''TodoQBitProducer'', pascal_name @ ''QBitProducer''),
      (''todoQBitConfig'', camel_name @ ''QBitConfig''),
      (''Todo QBit'', pascal_name @ '' QBit''),
      (''Todo'', pascal_name),
      (''<artifactId>qbit-todo</artifactId>'', ''<artifactId>'' @ artifact_id @ ''</artifactId>''),
      (''<name>QBit Todo</name>'', ''<name>QBit '' @ pascal_name @ ''</name>''),
      (''qbit-todo'', artifact_id),
      (''qrun-io/qbit-todo'', github_org @ ''/'' @ artifact_id),
      (''github.com/qrun-io/qbit-todo'', ''github.com/'' @ github_org @ ''/'' @ artifact_id)]"

definition move_sources :: "('fs, 'p) os_api \<Rightarrow> 'p \<Rightarrow> 'p \<Rightarrow> 'p \<Rightarrow> ('fs, 'p, unit) prog" where
  \<comment> \<open>the loop "Move Java sources to the new package path" of \<open>main\<close>\<close>
  "move_sources api repo old_package_path new_package_path =
     for_each [''src/main/java'', ''src/test/java''] (\<lambda>src_root.
       let root = joinpath api repo (path_of api [src_root]);
           src_dir = joinpath api root old_package_path
       in and_then (fs_get (exists api src_dir)) (\<lambda>present.
            if present then
              (let dst_dir = joinpath api root new_package_path
               in and_then (fs_do (Mkdir (parent api dst_dir)) (mkdir_parents api (parent api dst_dir))) (\<lambda>_.
                  and_then (fs_do (Move (str_of api src_dir) (str_of api dst_dir))
                              (move api (str_of api src_dir) (str_of api dst_dir))) (\<lambda>_.
                  and_then (print (''  Moved: '' @ src_root @ ''/'' @ str_of api old_package_path @
                                   '' -> '' @ src_root @ ''/'' @ str_of api new_package_path)) (\<lambda>_.
                  except_OSError
                    (for_each [''com/kingsrook/qbits'', ''com/kingsrook'', ''com'']
                       (\<lambda>d. fs_do (Rmdir (joinpath api root (path_of api [d])))
                                  (rmdir api (joinpath api root (path_of api [d])))))))))
            else ret ()))"

definition rename_java_files :: "('fs, 'p) os_api \<Rightarrow> 'p \<Rightarrow> 'p \<Rightarrow> string \<Rightarrow> ('fs, 'p, unit) prog" where
  \<comment> \<open>the loop "Rename Java files" of \<open>main\<close>; the matches of the pattern are those found
      when the inner loop starts\<close>
  "rename_java_files api repo new_package_path pascal_name =
     for_each [''src/main/java'', ''src/test/java''] (\<lambda>src_root.
       let new_dir = joinpath api (joinpath api repo (path_of api [src_root])) new_package_path
       in and_then (fs_get (exists api new_dir)) (\<lambda>present.
            if present then
              and_then (fs_get (glob api new_dir ''Todo*.java'')) (\<lambda>java_files.
                for_each java_files (\<lambda>java_file.
                  let new_name = replace ''Todo'' pascal_name (name_of api java_file);
                      new_path = joinpath api (parent api java_file) (path_of api [new_name])
                  in and_then (fs_do (Rename java_file new_path) (rename api java_file new_path)) (\<lambda>_.
                     print (''  Renamed: '' @ name_of api java_file @ '' -> '' @ new_name))))
            else ret ()))"

definition collect_files :: "('fs, 'p) os_api \<Rightarrow> 'p \<Rightarrow> 'fs \<Rightarrow> 'p list" where
  \<comment> \<open>\<open>all_files\<close> of \<open>main\<close>\<close>
  "collect_files api repo fs =
     (let java_files = rglob api (joinpath api repo (path_of api [''src''])) ''*.java'' fs;
          xml_files = [joinpath api repo (path_of api [''pom.xml''])];
          md_files = glob api repo ''*.md'' fs @
                     rglob api (joinpath api repo (path_of api [''docs''])) ''*.md'' fs;
          yml_files = rglob api repo ''*.yml'' fs @ rglob api repo ''*.yaml'' fs
      in java_files @ xml_files @ md_files @ yml_files)"

definition customize ::
  "('fs, 'p) os_api \<Rightarrow> 'p \<Rightarrow> string \<Rightarrow> string \<Rightarrow> string \<Rightarrow> string \<Rightarrow> string \<Rightarrow> string \<Rightarrow>
     ('fs, 'p, unit) prog" where
  \<comment> \<open>\<open>main\<close> from the line after the confirmation to its end\<close>
  "customize api repo pascal_name camel_name package_name group_id artifact_id github_org =
     (let old_package_path = path_of api [''com/kingsrook/qbits/todo''];
          new_package = group_id @ ''.'' @ package_name;
          new_package_path = path_of api (split_on (CHR ''.'') new_package)
      in and_then (print_all ['''', ''Moving source files...'']) (\<lambda>_.
         and_then (move_sources api repo old_package_path new_package_path) (\<lambda>_.
         and_then (print_all ['''', ''Renaming Java files...'']) (\<lambda>_.
         and_then (rename_java_files api repo new_package_path pascal_name) (\<lambda>_.
         and_then (fs_get (collect_files api repo)) (\<lambda>all_files.
         let replacements =
               replacements_table new_package pascal_name camel_name artifact_id github_org
         in
         and_then (print_all ['''', ''Updating file contents...'']) (\<lambda>_.
         and_then (replace_in_files api all_files replacements) (\<lambda>_.
         print_all
           ['''', replicate 60 (CHR ''=''), ''Customization complete!'', replicate 60 (CHR ''=''), '''',
            ''  Package:     '' @ new_package,
            ''  groupId:     '' @ group_id,
            ''  artifactId:  '' @ artifact_id,
            ''  GitHub:      '' @ github_org @ ''/'' @ artifact_id,
            '''',
            ''Next steps:'',
            ''  1. Review the changes: git diff'',
            ''  2. Build the project:  mvn clean package'',
            ''  3. Commit your changes'',
            '''']))))))))"

definition main :: "('fs, 'p) os_api \<Rightarrow> 'p \<Rightarrow> ('fs, 'p, unit) prog" where
  \<comment> \<open>\<open>repo\<close> is \<open>Path(__file__).resolve().parents[1]\<close>\<close>
  "main api repo =
     (let pom = joinpath api repo (path_of api [''pom.xml''])
      in and_then (fs_get (exists api pom)) (\<lambda>pom_exists.
         if \<not> pom_exists then raise (SystemExit ''Run from the template repo; pom.xml not found.'')
         else
         and_then (print_all
           [replicate 60 (CHR ''=''), ''QBit Template Customization'', replicate 60 (CHR ''=''), '''',
            ''This script will rename the template to match your QBit name.'',
            ''Enter your QBit name in any format (e.g., '' @ [CHR 0x27] @ ''my-feature'' @ [CHR 0x27] @
              '', '' @ [CHR 0x27] @ ''MyFeature'' @ [CHR 0x27] @ '').'',
            '''']) (\<lambda>_.
         and_then (prompt ''QBit name'' ''my-qbit'') (\<lambda>qbit_name.
         let kebab_name = to_kebab_case qbit_name
         in
         case to_pascal_case qbit_name of None \<Rightarrow> raise Unrepresentable | Some pascal_name \<Rightarrow>
         case to_camel_case qbit_name of None \<Rightarrow> raise Unrepresentable | Some camel_name \<Rightarrow>
         let package_name = to_package_name qbit_name
         in
         and_then (print_all
           ['''', ''Derived names:'',
            ''  kebab-case:  '' @ kebab_name,
            ''  PascalCase:  '' @ pascal_name,
            ''  camelCase:   '' @ camel_name,
            ''  package:     '' @ package_name,
            '''']) (\<lambda>_.
         and_then (prompt ''Maven groupId'' ''com.kingsrook.qbits'') (\<lambda>group_id.
         and_then (prompt ''Maven artifactId'' (''qbit-'' @ kebab_name)) (\<lambda>artifact_id.
         and_then (prompt ''GitHub organization'' ''qrun-io'') (\<lambda>github_org.
         and_then (print_all
           ['''', ''Configuration:'',
            ''  groupId:     '' @ group_id,
            ''  artifactId:  '' @ artifact_id,
            ''  GitHub:      '' @ github_org @ ''/'' @ artifact_id,
            '''']) (\<lambda>_.
         and_then (input ''Proceed with customization? [Y/n]: '') (\<lambda>answer.
         let confirm = lower (strip answer)
         in if confirm = ''n'' then print ''Aborted.''
            else customize api repo pascal_name camel_name package_name
                   group_id artifact_id github_org))))))))))"

section \<open>The writes of the replacement loop\<close>

text \<open>
  What the loop of \<open>replace_in_files\<close> is expected to do is stated with the definitions
  below. The calls logged in \<open>fs_calls\<close> are replayed on a filesystem by \<open>replay\<close>. A file
  needs a write when it exists, is read as text, and the text after all the replacements
  differs from the text read. A call is a write of the loop, in a given filesystem, when
  it writes to a file of the list that needs it there the replaced text of what is read
  there. The library calls are otherwise arbitrary; of \<open>write_text\<close> it is only asked that
  it leave the existence and the content of every other path as they were.
\<close>

fun perform :: "('fs, 'p) os_api \<Rightarrow> 'p fs_call \<Rightarrow> 'fs \<Rightarrow> 'fs" where
  "perform api (Mkdir p) fs = snd (mkdir_parents api p fs)"
| "perform api (Move src dst) fs = snd (move api src dst fs)"
| "perform api (Rmdir p) fs = snd (rmdir api p fs)"
| "perform api (Rename p q) fs = snd (rename api p q fs)"
| "perform api (WriteText p text) fs = snd (write_text api p text fs)"

definition replay :: "('fs, 'p) os_api \<Rightarrow> 'p fs_call list \<Rightarrow> 'fs \<Rightarrow> 'fs" where
  "replay api calls fs = foldl (\<lambda>fs c. perform api c fs) fs calls"

definition needs_write ::
  "('fs, 'p) os_api \<Rightarrow> (string \<times> string) list \<Rightarrow> 'p \<Rightarrow> 'fs \<Rightarrow> bool" where
  "needs_write api replacements file fs \<longleftrightarrow>
     exists api file fs \<and>
     (case read_text api file fs of
        Inl e \<Rightarrow> False
      | Inr text \<Rightarrow> apply_replacements replacements text \<noteq> text)"

definition write_of ::
  "('fs, 'p) os_api \<Rightarrow> (string \<times> string) list \<Rightarrow> 'p list \<Rightarrow> 'fs \<Rightarrow> 'p fs_call \<Rightarrow> bool" where
  "write_of api replacements files fs c \<longleftrightarrow>
     (\<exists>g text. g \<in> set files \<and> exists api g fs \<and> read_text api g fs = Inr text \<and>
        apply_replacements replacements text \<noteq> text \<and>
        c = WriteText g (apply_replacements replacements text))"

definition writes_are_local :: "('fs, 'p) os_api \<Rightarrow> bool" where
  "writes_are_local api \<longleftrightarrow>
     (\<forall>f g text fs. f \<noteq> g \<longrightarrow>
        exists api g (snd (write_text api f text fs)) = exists api g fs \<and>
        read_text api g (snd (write_text api f text fs)) = read_text api g fs)"

section \<open>A store of text files\<close>

text \<open>
  An instance of the library calls to run the script on: text files kept under their path
  strings, without directories, so that nothing can be moved, renamed or enumerated.
\<close>

definition flat_api :: "((string \<times> string) list, string) os_api" where
  "flat_api =
     \<lparr>path_of = join ''/'',
      joinpath = (\<lambda>p q. p @ ''/'' @ q),
      parent = (\<lambda>p. join ''/'' (butlast (split_on (CHR ''/'') p))),
      name_of = (\<lambda>p. last (split_on (CHR ''/'') p)),
      str_of = (\<lambda>p. p),
      exists = (\<lambda>p fs. map_of fs p \<noteq> None),
      glob = (\<lambda>p pattern fs. []),
      rglob = (\<lambda>p pattern fs. []),
      read_text = (\<lambda>p fs. case map_of fs p of None \<Rightarrow> Inl OSError | Some text \<Rightarrow> Inr text),
      mkdir_parents = (\<lambda>p fs. (Inl OSError, fs)),
      move = (\<lambda>src dst fs. (Inl OSError, fs)),
      rmdir = (\<lambda>p fs. (Inl OSError, fs)),
      rename = (\<lambda>p q fs. (Inl OSError, fs)),
      write_text = (\<lambda>p text fs. (Inr (), (p, text) # fs))\<rparr>"

definition demo_world :: "string list \<Rightarrow> ((string \<times> string) list, string) world" where
  "demo_world answers =
     \<lparr>filesystem = [(''repo/pom.xml'', ''<name>QBit Todo</name>'')], fs_calls = [],
      stdin = answers, stdout = ''''\<rparr>"

definition demo_docs :: "((string \<times> string) list, string) world" where
  "demo_docs =
     \<lparr>filesystem = [(''README.md'', ''The Todo QBit''), (''LICENSE.md'', ''MIT'')], fs_calls = [],
      stdin = [], stdout = ''''\<rparr>"

section \<open>Facts about characters and the string methods\<close>

lemma is_upper_isupper: "is_upper c \<Longrightarrow> isupper c"
  by (simp add: isupper_def)

lemma of_char_lower_chr:
  "isupper c \<Longrightarrow> (of_char (lower_chr c) :: nat) = of_char c + 32"
proof -
  assume u: "isupper c"
  then have "(of_char c :: nat) \<le> 222"
    by (auto simp: isupper_def is_upper_def)
  then have "(of_char c + 32 :: nat) mod 256 = of_char c + 32"
    by simp
  then show ?thesis
    using u by (simp add: lower_chr_def)
qed

lemma lower_chr_id: "\<not> isupper c \<Longrightarrow> lower_chr c = c"
  by (simp add: lower_chr_def)

lemma lower_chr_not_isupper: "\<not> isupper (lower_chr c)"
proof (cases "isupper c")
  case True
  from of_char_lower_chr[OF True] True show ?thesis
    unfolding isupper_def is_upper_def by arith
next
  case False
  then show ?thesis by (simp add: lower_chr_id)
qed

lemma lower_chr_not_upper: "\<not> is_upper (lower_chr c)"
  using lower_chr_not_isupper is_upper_isupper by blast

lemma lower_chr_idem: "lower_chr (lower_chr c) = lower_chr c"
  by (simp add: lower_chr_id lower_chr_not_isupper)

lemma lower_chr_is_lower: "is_upper c \<Longrightarrow> is_lower (lower_chr c)"
  using of_char_lower_chr[OF is_upper_isupper, of c]
  unfolding is_upper_def is_lower_def by arith

lemma lower_chr_islower: "isupper c \<Longrightarrow> islower (lower_chr c)"
  using of_char_lower_chr[of c]
  unfolding isupper_def islower_def is_upper_def is_lower_def by arith

lemma islower_not_isupper: "islower c \<Longrightarrow> \<not> isupper c"
  unfolding isupper_def islower_def is_upper_def is_lower_def by arith

lemma is_lower_not_upper: "is_lower c \<Longrightarrow> \<not> is_upper c"
  by (simp add: is_lower_def is_upper_def)

lemma lower_id: "\<forall>c\<in>set s. \<not> isupper c \<Longrightarrow> lower s = s"
  by (induction s) (auto simp: lower_def lower_chr_id)

lemma replace_single: "replace [a] [b] s = map (\<lambda>c. if c = a then b else c) s"
  by (induction s) (auto simp: replace_def)

lemma replace_single_absent: "a \<notin> set s \<Longrightarrow> replace [a] [b] s = s"
  by (induction s) (auto simp: replace_single)

lemma set_replace_single: "set (replace [a] [b] s) \<subseteq> insert b (set s - {a})"
  by (auto simp: replace_single)

section \<open>The derived forms of a name\<close>

text \<open>
  C9. For the name \<open>my-feature\<close> the four derivations give the kebab-case form
  \<open>my-feature\<close>, the PascalCase form \<open>MyFeature\<close>, the camelCase form \<open>myFeature\<close> and
  the package form \<open>myfeature\<close>.
\<close>

theorem derived_forms_of_my_feature:
  "to_kebab_case ''my-feature'' = ''my-feature'' \<and>
   to_pascal_case ''my-feature'' = Some ''MyFeature'' \<and>
   to_camel_case ''my-feature'' = Some ''myFeature'' \<and>
   to_package_name ''my-feature'' = ''myfeature''"
  by code_simp

text \<open>
  C1. The PascalCase derivation is claimed to capitalise the first character of each
  word and to leave the other characters of the word as given. \<open>str.capitalize\<close> puts
  them in lower case: \<open>MyQbit\<close>, which the docstring of \<open>to_camel_case\<close> maps to
  \<open>myQbit\<close>, becomes \<open>Myqbit\<close> in PascalCase and \<open>myqbit\<close> in camelCase, while the
  kebab-case derivation does see its two words.
\<close>

theorem to_pascal_case_lowers_rest:
  "to_pascal_case ''MyQbit'' = Some ''Myqbit'' \<and> to_camel_case ''MyQbit'' = Some ''myqbit'' \<and>
   to_kebab_case ''MyQbit'' = ''my-qbit''"
  by code_simp

text \<open>
  C5. The claim: for a name with a non-empty PascalCase form, the first character of the
  camelCase form is a lowercase letter, equal to the first character of the PascalCase
  form lowered, and the rest of both forms is the same. It fails for the name \<open>2fa\<close>:
  its PascalCase and camelCase forms are \<open>2fa\<close> again, and the digit is no lowercase
  letter.
\<close>

theorem to_camel_case_digit_counterexample:
  "''2fa'' \<noteq> [] \<and> to_pascal_case ''2fa'' = Some ''2fa'' \<and>
   to_camel_case ''2fa'' = Some ''2fa'' \<and> \<not> islower (hd ''2fa'') \<and> \<not> isalpha (hd ''2fa'')"
  by code_simp

text \<open>
  C5 as amended, for names of code points below 256. When the PascalCase form is the
  character \<open>c\<close> followed by \<open>cs\<close>, the camelCase form is \<open>c\<close> lowered followed by \<open>cs\<close>;
  its first character is a lowercase letter when \<open>c\<close> is a letter, and is \<open>c\<close> itself, no
  lowercase letter, when \<open>c\<close> is not a letter.
\<close>

theorem to_camel_case_lowers_first:
  "to_pascal_case x = Some (c # cs) \<Longrightarrow>
     to_camel_case x = Some (lower_chr c # cs) \<and>
     (isalpha c \<longrightarrow> islower (lower_chr c)) \<and>
     (\<not> isalpha c \<longrightarrow> lower_chr c = c \<and> \<not> islower (lower_chr c))"
proof (intro conjI impI)
  assume p: "to_pascal_case x = Some (c # cs)"
  then show "to_camel_case x = Some (lower_chr c # cs)"
    by (simp add: to_camel_case_def lower_def)
  show "islower (lower_chr c)" if "isalpha c"
  proof (cases "isupper c")
    case True
    then show ?thesis by (rule lower_chr_islower)
  next
    case False
    with that show ?thesis by (simp add: isalpha_def lower_chr_id)
  qed
  show "lower_chr c = c" if "\<not> isalpha c"
    using that by (simp add: isalpha_def lower_chr_id)
  show "\<not> islower (lower_chr c)" if "\<not> isalpha c"
    using that by (simp add: isalpha_def lower_chr_id)
qed

theorem to_camel_case_lowers_first_witness:
  "to_pascal_case (CHR 0xE9 # ''lan-vital'') = Some (CHR 0xC9 # ''lanVital'') \<and>
   to_camel_case (CHR 0xE9 # ''lan-vital'') = Some (CHR 0xE9 # ''lanVital'') \<and>
   isalpha (CHR 0xC9) \<and> islower (CHR 0xE9)"
proof -
  have h: "to_pascal_case (CHR 0xE9 # ''lan-vital'') = Some (CHR 0xC9 # ''lanVital'')"
    by code_simp
  have l: "lower_chr (CHR 0xC9) = CHR 0xE9" "isalpha (CHR 0xC9)"
    by code_simp+
  show ?thesis
    using h to_camel_case_lowers_first [OF h] l by simp
qed

text \<open>
  C6. The kebab-case derivation is claimed to turn every whitespace character, tabs and
  line feeds included, into a hyphen. It replaces the space only: a tab inside the name
  stays in the kebab-case form, while the PascalCase and the package derivations, which
  split on \<open>\s\<close>, treat the same tab as a separator.
\<close>

theorem to_kebab_case_keeps_tab:
  "to_kebab_case (''my'' @ [CHR 0x09] @ ''qbit'') = ''my'' @ [CHR 0x09] @ ''qbit'' \<and>
   to_pascal_case (''my'' @ [CHR 0x09] @ ''qbit'') = Some ''MyQbit'' \<and>
   to_package_name (''my'' @ [CHR 0x09] @ ''qbit'') = ''myqbit''"
  by code_simp

subsection \<open>The kebab-case derivation is idempotent\<close>

lemma kebab_s1_id: "\<forall>c\<in>set s. \<not> is_upper c \<Longrightarrow> kebab_s1 s = s"
  by (induction s rule: kebab_s1.induct) auto

lemma kebab_s2_id: "\<forall>c\<in>set s. \<not> is_upper c \<Longrightarrow> kebab_s2 s = s"
  by (induction s rule: kebab_s2.induct) auto

lemma to_kebab_case_chars:
  assumes "c \<in> set (to_kebab_case x)"
  shows "\<not> isupper c" and "c \<noteq> CHR ''_''" and "c \<noteq> CHR '' ''"
proof -
  let ?l = "lower (kebab_s2 (kebab_s1 x))"
  have c: "c \<in> set (replace '' '' ''-'' (replace ''_'' ''-'' ?l))"
    using assms by (simp add: to_kebab_case_def)
  then show "c \<noteq> CHR '' ''"
    using set_replace_single[of "CHR '' ''" "CHR ''-''"] by auto
  from c have "c = CHR ''-'' \<or> c \<in> set (replace ''_'' ''-'' ?l)"
    using set_replace_single[of "CHR '' ''" "CHR ''-''" "replace ''_'' ''-'' ?l"] by auto
  then have d: "c = CHR ''-'' \<or> (c \<in> set ?l \<and> c \<noteq> CHR ''_'')"
    using set_replace_single[of "CHR ''_''" "CHR ''-''" ?l] by auto
  then show "c \<noteq> CHR ''_''" by auto
  have "\<not> isupper (CHR ''-'')"
    by (simp add: isupper_def is_upper_def)
  with d show "\<not> isupper c"
    by (auto simp: lower_def lower_chr_not_isupper)
qed

text \<open>
  C10. The kebab-case derivation is idempotent: applied to its own output it returns
  that output.
\<close>

theorem to_kebab_case_idempotent:
  "to_kebab_case (to_kebab_case x) = to_kebab_case x"
proof -
  let ?k = "to_kebab_case x"
  have ni: "\<forall>c\<in>set ?k. \<not> isupper c"
    using to_kebab_case_chars(1) by blast
  then have nu: "\<forall>c\<in>set ?k. \<not> is_upper c"
    using is_upper_isupper by blast
  have "to_kebab_case ?k = replace '' '' ''-'' (replace ''_'' ''-'' ?k)"
    unfolding to_kebab_case_def[of ?k] Let_def
    by (simp only: kebab_s1_id[OF nu] kebab_s2_id[OF nu] lower_id[OF ni])
  also have "replace ''_'' ''-'' ?k = ?k"
    using to_kebab_case_chars(2)[of _ x] by (intro replace_single_absent) blast
  also have "replace '' '' ''-'' ?k = ?k"
    using to_kebab_case_chars(3)[of _ x] by (intro replace_single_absent) blast
  finally show ?thesis .
qed

subsection \<open>The round trip through PascalCase\<close>

lemma split_on_nonempty: "split_on d s \<noteq> []"
  by (induction s) auto

lemma join_split_on: "join [d] (split_on d s) = s"
proof (induction s)
  case Nil
  show ?case by simp
next
  case (Cons c s)
  obtain w ws where sp: "split_on d s = w # ws"
    using split_on_nonempty[of d s] by (cases "split_on d s") auto
  with Cons show ?case by (cases ws) auto
qed

lemma join_Cons: "join sep (w # ws) = w @ concat (map (\<lambda>v. sep @ v) ws)"
  by (induction ws arbitrary: w) auto

lemma re_split_no_sep: "\<forall>c\<in>set w. \<not> is_sep c \<Longrightarrow> re_split w = [w]"
proof -
  assume a: "\<forall>c\<in>set w. \<not> is_sep c"
  then have d: "dropWhile (\<lambda>c. \<not> is_sep c) w = []" by simp
  show ?thesis by (subst re_split.simps) (simp only: d list.case)
qed

lemma hyphen_is_sep: "is_sep (CHR ''-'')"
  by (simp add: is_sep_def)

lemma re_split_word:
  assumes "\<forall>c\<in>set w. \<not> is_sep c" and "rest = [] \<or> \<not> is_sep (hd rest)"
  shows "re_split (w @ CHR ''-'' # rest) = w # re_split rest"
proof -
  have d: "dropWhile (\<lambda>c. \<not> is_sep c) (w @ CHR ''-'' # rest) = CHR ''-'' # rest"
    using assms(1) by (simp add: dropWhile_append3 hyphen_is_sep)
  have t: "takeWhile (\<lambda>c. \<not> is_sep c) (w @ CHR ''-'' # rest) = w"
    using assms(1) by (simp add: takeWhile_tail hyphen_is_sep)
  have r: "dropWhile is_sep rest = rest"
    using assms(2) by (cases rest) auto
  show ?thesis
    by (subst re_split.simps) (simp add: d t r)
qed

lemma re_split_join:
  assumes "ws \<noteq> []" and "\<forall>w\<in>set ws. w \<noteq> [] \<and> (\<forall>c\<in>set w. \<not> is_sep c)"
  shows "re_split (join ''-'' ws) = ws"
  using assms
proof (induction "''-''" ws rule: join.induct)
  case 1
  then show ?case by simp
next
  case (2 w)
  then show ?case by (simp add: re_split_no_sep)
next
  case (3 w v ws)
  have "join ''-'' (v # ws) \<noteq> [] \<and> \<not> is_sep (hd (join ''-'' (v # ws)))"
    using "3.prems" by (cases v) (auto simp: join_Cons)
  then have "re_split (w @ CHR ''-'' # join ''-'' (v # ws)) = w # re_split (join ''-'' (v # ws))"
    using "3.prems" by (intro re_split_word) auto
  then show ?case using 3 by simp
qed

lemma phg_hd: "phg (d # s) t \<Longrightarrow> \<exists>t'. t = d # t'"
  by (induction "d # s" t rule: phg.induct) auto

lemma kebab_s2_skip: "\<not> (is_lower d \<or> is_digit d) \<Longrightarrow> kebab_s2 (d # t) = d # kebab_s2 t"
  by (cases t) auto

lemma upper_not_lower_digit: "is_upper d \<Longrightarrow> \<not> (is_lower d \<or> is_digit d)"
  by (auto simp: is_upper_def is_lower_def is_digit_def)

lemma hyphen_class: "\<not> is_upper (CHR ''-'')" "\<not> is_lower (CHR ''-'')" "\<not> is_digit (CHR ''-'')"
  by (simp_all add: is_upper_def is_lower_def is_digit_def)

lemma kebab_s2_phg: "phg s t \<Longrightarrow> kebab_s2 t = hyph0 s"
proof (induction rule: phg.induct)
  case phg_Nil
  show ?case by simp
next
  case (phg_One c)
  show ?case by simp
next
  case (phg_Hyphen u s t c)
  from phg_hd[OF phg_Hyphen.hyps(1)] obtain t' where t: "t = u # t'" by blast
  have "kebab_s2 (c # CHR ''-'' # t) = c # kebab_s2 (CHR ''-'' # t)"
    by (simp add: hyphen_class)
  also have "kebab_s2 (CHR ''-'' # t) = CHR ''-'' # kebab_s2 t"
    by (rule kebab_s2_skip) (simp add: hyphen_class)
  finally show ?case
    using phg_Hyphen.IH phg_Hyphen.hyps(2) by simp
next
  case (phg_Plain d s t c)
  from phg_hd[OF phg_Plain.hyps(1)] obtain t' where t: "t = d # t'" by blast
  show ?case
  proof (cases "is_upper d")
    case True
    then have cl: "is_lower c \<or> is_digit c" using phg_Plain.hyps(2) by simp
    have "kebab_s2 (d # t') = d # kebab_s2 t'"
      using True by (intro kebab_s2_skip upper_not_lower_digit)
    then have "kebab_s2 t' = hyph s"
      using phg_Plain.IH t by simp
    then show ?thesis
      using True cl t by simp
  next
    case False
    then show ?thesis
      using phg_Plain.IH t by simp
  qed
qed

lemma bnd_ok_tl: "bnd_ok (a # b) \<Longrightarrow> bnd_ok b"
  by (cases b) auto

lemma bnd_ok_append: "bnd_ok (a @ b) \<Longrightarrow> bnd_ok b"
  by (induction a) (auto dest: bnd_ok_tl)

lemma phg_lower_run:
  assumes "x \<noteq> []" "\<forall>c\<in>set x. is_lower c" "phg dw t"
  shows "phg (x @ dw) (x @ t)"
  using assms
proof (induction x rule: list_nonempty_induct)
  case (single a)
  show ?case
  proof (cases dw)
    case Nil
    with single show ?thesis by (auto elim: phg.cases intro: phg.intros)
  next
    case (Cons d dw')
    with single show ?thesis by (auto intro!: phg_Plain)
  qed
next
  case (cons a x)
  then obtain b x' where x: "x = b # x'" by (cases x) auto
  from cons have "phg (x @ dw) (x @ t)" by simp
  moreover have "\<not> is_upper b" using cons.prems x by (auto dest: is_lower_not_upper)
  ultimately show ?case using x by (auto intro!: phg_Plain)
qed

lemma phg_kebab_s1: "bnd_ok s \<Longrightarrow> phg s (kebab_s1 s)"
proof (induction s rule: kebab_s1.induct)
  case (1 c u l rest)
  show ?case
  proof (cases "c \<noteq> CHR 0x0A \<and> is_upper u \<and> is_lower l")
    case True
    let ?tw = "takeWhile is_lower rest" and ?dw = "dropWhile is_lower rest"
    have "bnd_ok ((c # u # l # ?tw) @ ?dw)" using "1.prems" by simp
    then have "bnd_ok ?dw" by (rule bnd_ok_append)
    then have ih: "phg ?dw (kebab_s1 ?dw)" using "1.IH"(1) True by simp
    have "phg ((l # ?tw) @ ?dw) ((l # ?tw) @ kebab_s1 ?dw)"
      using True by (intro phg_lower_run ih) (auto dest: set_takeWhileD)
    then have "phg (l # rest) (l # ?tw @ kebab_s1 ?dw)" by simp
    then have "phg (u # l # rest) (u # l # ?tw @ kebab_s1 ?dw)"
      using True by (intro phg_Plain) (auto dest: is_lower_not_upper)
    then have "phg (c # u # l # rest) (c # CHR ''-'' # u # l # ?tw @ kebab_s1 ?dw)"
      using True by (intro phg_Hyphen) auto
    then show ?thesis using True by simp
  next
    case False
    have "phg (u # l # rest) (kebab_s1 (u # l # rest))"
      using "1.IH"(2) False "1.prems" by simp
    moreover have "is_upper u \<longrightarrow> is_lower c \<or> is_digit c"
      using "1.prems" False by auto
    ultimately have "phg (c # u # l # rest) (c # kebab_s1 (u # l # rest))"
      by (rule phg_Plain)
    moreover have "kebab_s1 (c # u # l # rest) = c # kebab_s1 (u # l # rest)"
      using False by auto
    ultimately show ?thesis by simp
  qed
next
  case (2 c u)
  then show ?case by (auto intro!: phg.intros)
next
  case (3 c)
  show ?case by (auto intro: phg.intros)
next
  case 4
  show ?case by (auto intro: phg.intros)
qed

lemma kebab_s2_kebab_s1: "bnd_ok s \<Longrightarrow> kebab_s2 (kebab_s1 s) = hyph0 s"
  by (simp add: kebab_s2_phg phg_kebab_s1)

lemma of_char_cap_chr:
  assumes "is_lower c"
  shows "(of_char (cap_chr c) :: nat) = of_char c - 32" and "32 \<le> (of_char c :: nat)"
proof -
  have n: "97 \<le> (of_char c :: nat)" "(of_char c :: nat) \<le> 122"
    using assms by (auto simp: is_lower_def)
  then have "(of_char c - 32 :: nat) mod 256 = of_char c - 32"
    by simp
  then show "(of_char (cap_chr c) :: nat) = of_char c - 32"
    by (simp add: cap_chr_def)
  show "32 \<le> (of_char c :: nat)"
    using n by simp
qed

lemma cap_chr_is_upper: "is_lower c \<Longrightarrow> is_upper (cap_chr c)"
  using of_char_cap_chr(1)[of c] unfolding is_upper_def is_lower_def by arith

lemma lower_cap_chr:
  assumes "is_lower c"
  shows "lower_chr (cap_chr c) = c"
proof -
  have "lower_chr (cap_chr c) = char_of (of_char (cap_chr c) + 32 :: nat)"
    using is_upper_isupper[OF cap_chr_is_upper[OF assms]] by (simp add: lower_chr_def)
  also have "\<dots> = char_of (of_char c :: nat)"
    using of_char_cap_chr[OF assms] by simp
  finally show ?thesis by simp
qed

lemma word_char_plain:
  assumes "is_lower c \<or> is_digit c"
  shows "\<not> is_sep c" and "c \<noteq> CHR ''_''" and "c \<noteq> CHR '' ''" and "\<not> is_upper c"
    and "\<not> isupper c"
proof -
  have n: "48 \<le> (of_char c :: nat) \<and> (of_char c :: nat) \<le> 57 \<or>
           97 \<le> (of_char c :: nat) \<and> (of_char c :: nat) \<le> 122"
    using assms by (auto simp: is_lower_def is_digit_def)
  then show "c \<noteq> CHR ''_''" and "c \<noteq> CHR '' ''" and "\<not> is_upper c"
    and "\<not> isupper c"
    by (auto simp: is_upper_def isupper_def)
  from n have "c \<noteq> CHR ''-''" by auto
  with n \<open>c \<noteq> CHR ''_''\<close> show "\<not> is_sep c"
    by (auto simp: is_sep_def is_space_def)
qed

lemma digit_not_upper: "is_digit c \<Longrightarrow> \<not> is_upper c"
  by (simp add: is_digit_def is_upper_def)

lemma is_word_no_upper: "is_word w \<Longrightarrow> c \<in> set w \<Longrightarrow> \<not> is_upper c"
  by (auto simp: is_word_def dest: is_lower_not_upper digit_not_upper)

lemma is_word_no_isupper:
  assumes "is_word w" and "c \<in> set w"
  shows "\<not> isupper c"
proof -
  have "is_lower c \<or> is_digit c" using assms by (simp add: is_word_def)
  then show ?thesis by (rule word_char_plain(5))
qed

lemma title_chr_lower: "is_lower c \<Longrightarrow> title_chr c = Some [cap_chr c]"
  by (simp add: title_chr_def cap_chr_def is_lower_def)

lemma capitalize_word:
  assumes "is_word w"
  shows "capitalize w = Some (cap_word w)"
proof -
  from assms obtain c r where w: "w = c # r" by (cases w) (auto simp: is_word_def)
  have "\<forall>x\<in>set r. \<not> isupper x" using assms w by (auto dest: is_word_no_isupper)
  then have "lower r = r" by (rule lower_id)
  moreover have "is_lower c" using assms w by (simp add: is_word_def)
  ultimately show ?thesis using w by (simp add: title_chr_lower cap_word_def)
qed

lemma bnd_ok_run:
  assumes "x \<noteq> []" "\<forall>c\<in>set x. is_lower c \<or> is_digit c" "bnd_ok y"
  shows "bnd_ok (x @ y)"
  using assms
proof (induction x rule: list_nonempty_induct)
  case (single a)
  then show ?case by (cases y) auto
next
  case (cons a x)
  then obtain b x' where x: "x = b # x'" by (cases x) auto
  have "\<not> is_upper b" using cons.prems x by (auto dest: is_lower_not_upper digit_not_upper)
  then show ?case using cons x by simp
qed

lemma bnd_ok_pascal_of:
  "\<forall>w\<in>set ws. is_word w \<Longrightarrow> boundaries_ok ws \<Longrightarrow> bnd_ok (pascal_of ws)"
proof (induction ws rule: boundaries_ok.induct)
  case (1 u v ws)
  let ?rest = "pascal_of (v # ws)"
  have ih: "bnd_ok ?rest" using 1 by simp
  have wu: "is_word u" and wv: "is_word v" using "1.prems" by auto
  have cu: "cap_word u = cap_chr (hd u) # tl u" by (simp add: cap_word_def)
  have cv: "cap_word v = cap_chr (hd v) # tl v" by (simp add: cap_word_def)
  have tl_u: "\<forall>c\<in>set (tl u). is_lower c \<or> is_digit c"
    using wu by (cases u) (auto simp: is_word_def)
  show ?case
  proof (cases "tl u")
    case Nil
    then have "length u < 2" by (cases u) auto
    then have v2: "2 \<le> length v" "is_lower (v ! 1)" using "1.prems"(2) by auto
    then obtain a b r where v: "v = a # b # r" by (cases v; cases "tl v") auto
    have U: "is_upper (cap_chr (hd u))" using wu by (simp add: is_word_def cap_chr_is_upper)
    then have "cap_chr (hd u) \<noteq> CHR 0x0A" by (auto simp: is_upper_def)
    moreover have "is_lower b" using v2 v by simp
    ultimately have "bnd_ok (cap_chr (hd u) # ?rest)"
      using ih cv v by (simp add: pascal_of_def)
    then show ?thesis using cu Nil by (simp add: pascal_of_def)
  next
    case (Cons b r)
    have "bnd_ok (tl u @ ?rest)"
      using tl_u ih Cons by (intro bnd_ok_run) auto
    moreover have "\<not> is_upper b"
      using tl_u Cons by (auto dest: is_lower_not_upper digit_not_upper)
    ultimately have "bnd_ok (cap_chr (hd u) # tl u @ ?rest)"
      using Cons by simp
    then show ?thesis using cu by (simp add: pascal_of_def)
  qed
next
  case 3
  show ?case by (simp add: pascal_of_def)
next
  case (2 w)
  then have wu: "is_word w" by simp
  have "bnd_ok (cap_chr (hd w) # tl w @ [])"
  proof (cases "tl w")
    case Nil then show ?thesis by simp
  next
    case (Cons b r)
    have tl_w: "\<forall>c\<in>set (tl w). is_lower c \<or> is_digit c"
      using wu by (cases w) (auto simp: is_word_def)
    have "bnd_ok (tl w @ [])" using tl_w Cons by (intro bnd_ok_run) auto
    moreover have "\<not> is_upper b"
      using tl_w Cons by (auto dest: is_lower_not_upper digit_not_upper)
    ultimately show ?thesis using Cons by simp
  qed
  then show ?case by (simp add: pascal_of_def cap_word_def)
qed

lemma hyph_append: "hyph (x @ y) = hyph x @ hyph y"
  by (induction x) auto

lemma hyph_id: "\<forall>c\<in>set x. \<not> is_upper c \<Longrightarrow> hyph x = x"
  by (induction x) auto

lemma lower_append: "lower (x @ y) = lower x @ lower y"
  by (simp add: lower_def)

lemma lower_hyph_capitalize:
  assumes "is_word w"
  shows "lower (hyph (cap_word w)) = CHR ''-'' # w"
    and "lower (hyph0 (cap_word w @ y)) = w @ lower (hyph y)"
proof -
  from assms obtain c r where w: "w = c # r" by (cases w) (auto simp: is_word_def)
  have r: "\<forall>x\<in>set r. \<not> is_upper x" using assms w by (auto dest: is_word_no_upper)
  have c: "is_lower c" using assms w by (simp add: is_word_def)
  have ri: "\<forall>x\<in>set r. \<not> isupper x" using assms w by (auto dest: is_word_no_isupper)
  have m: "lower_chr (CHR ''-'') = CHR ''-''"
    by (simp add: lower_chr_def isupper_def is_upper_def)
  have lr: "lower r = r" using ri by (rule lower_id)
  have hr: "hyph r = r" using r by (rule hyph_id)
  have cw: "cap_word w = cap_chr c # r" using w by (simp add: cap_word_def)
  show "lower (hyph (cap_word w)) = CHR ''-'' # w"
    unfolding cw using c w hr lr lower_def m
    by (simp add: cap_chr_is_upper lower_cap_chr)
  show "lower (hyph0 (cap_word w @ y)) = w @ lower (hyph y)"
    unfolding cw using c w hr lr lower_def
    by (simp add: hyph_append lower_cap_chr)
qed

lemma lower_hyph_pascal_of:
  "\<forall>w\<in>set ws. is_word w \<Longrightarrow> lower (hyph (pascal_of ws)) = concat (map (\<lambda>v. ''-'' @ v) ws)"
proof (induction ws)
  case Nil
  show ?case by (simp add: pascal_of_def lower_def)
next
  case (Cons w ws)
  have "pascal_of (w # ws) = cap_word w @ pascal_of ws" by (simp add: pascal_of_def)
  then show ?case
    using Cons by (simp add: hyph_append lower_append lower_hyph_capitalize(1))
qed

lemma lower_hyph0_pascal_of:
  assumes "\<forall>w\<in>set ws. is_word w"
  shows "lower (hyph0 (pascal_of ws)) = join ''-'' ws"
proof (cases ws)
  case Nil
  then show ?thesis by (simp add: pascal_of_def lower_def)
next
  case (Cons w ws')
  have "lower (hyph0 (pascal_of ws)) = w @ lower (hyph (pascal_of ws'))"
    using assms Cons lower_hyph_capitalize(2)[of w "pascal_of ws'"] by (simp add: pascal_of_def)
  then show ?thesis
    using assms Cons by (simp add: lower_hyph_pascal_of join_Cons)
qed

lemma those_map_Some: "\<forall>x\<in>set xs. f x = Some (g x) \<Longrightarrow> those (map f xs) = Some (map g xs)"
  by (induction xs) auto

lemma set_join: "set (join sep ws) \<subseteq> set sep \<union> \<Union> (set ` set ws)"
  by (induction sep ws rule: join.induct) auto

text \<open>
  C2. The claim: for every name in kebab-case form, the PascalCase derivation followed by
  the kebab-case derivation gives the name back. It fails for \<open>a-b\<close>, a name of two words
  of one letter each and without any digit: its PascalCase form \<open>AB\<close> has no small letter
  for either substitution to find a boundary at, and comes back as \<open>ab\<close>.
\<close>

theorem round_trip_single_letters_counterexample:
  "is_kebab_form ''a-b'' \<and> filter is_digit ''a-b'' = [] \<and>
   to_pascal_case ''a-b'' = Some ''AB'' \<and>
   map_option to_kebab_case (to_pascal_case ''a-b'') = Some ''ab'' \<and>
   map_option to_kebab_case (to_pascal_case ''a-b'') \<noteq> Some ''a-b''"
  by code_simp

text \<open>
  C2 as amended. For every name in kebab-case form in which every word of a single letter
  is either the last word or followed by a word whose second character is a lowercase
  letter, the PascalCase derivation followed by the kebab-case derivation gives the name
  back.
\<close>

theorem kebab_pascal_round_trip:
  assumes "is_kebab_form name" and "boundaries_ok (split_on (CHR ''-'') name)"
  shows "map_option to_kebab_case (to_pascal_case name) = Some name"
proof -
  let ?ws = "split_on (CHR ''-'') name"
  have ws: "\<forall>w\<in>set ?ws. is_word w" using assms(1) by (simp add: is_kebab_form_def)
  have name: "join ''-'' ?ws = name" by (rule join_split_on)
  have nosep: "\<forall>w\<in>set ?ws. w \<noteq> [] \<and> (\<forall>c\<in>set w. \<not> is_sep c)"
  proof (intro ballI conjI)
    fix w assume "w \<in> set ?ws"
    then have w: "is_word w" using ws by blast
    then show "w \<noteq> []" by (simp add: is_word_def)
    fix c assume "c \<in> set w"
    then have "is_lower c \<or> is_digit c" using w by (simp add: is_word_def)
    then show "\<not> is_sep c" by (rule word_char_plain(1))
  qed
  have "re_split (join ''-'' ?ws) = ?ws"
    using split_on_nonempty nosep by (rule re_split_join)
  moreover have "those (map capitalize ?ws) = Some (map cap_word ?ws)"
    using ws by (intro those_map_Some) (auto simp: capitalize_word)
  ultimately have p: "to_pascal_case name = Some (pascal_of ?ws)"
    by (simp add: to_pascal_case_def pascal_of_def name)
  have "bnd_ok (pascal_of ?ws)" using ws assms(2) by (rule bnd_ok_pascal_of)
  then have "kebab_s2 (kebab_s1 (pascal_of ?ws)) = hyph0 (pascal_of ?ws)"
    by (rule kebab_s2_kebab_s1)
  then have l: "lower (kebab_s2 (kebab_s1 (pascal_of ?ws))) = name"
    using lower_hyph0_pascal_of[OF ws] name by simp
  have "c \<noteq> CHR ''_'' \<and> c \<noteq> CHR '' ''" if "c \<in> set (join ''-'' ?ws)" for c
  proof -
    from that set_join[of "''-''" ?ws]
    consider "c = CHR ''-''" | w where "w \<in> set ?ws" "c \<in> set w"
      by auto
    then show ?thesis
    proof cases
      case 1
      then show ?thesis by simp
    next
      case 2
      then have "is_lower c \<or> is_digit c" using ws by (auto simp: is_word_def)
      then show ?thesis using word_char_plain(2,3) by blast
    qed
  qed
  then have "CHR ''_'' \<notin> set name" "CHR '' '' \<notin> set name"
    unfolding name by blast+
  then show ?thesis
    by (simp add: p to_kebab_case_def l replace_single_absent)
qed

theorem kebab_pascal_round_trip_witness:
  "is_kebab_form ''x-my-qbit2'' \<and> boundaries_ok (split_on (CHR ''-'') ''x-my-qbit2'') \<and>
   to_pascal_case ''x-my-qbit2'' = Some ''XMyQbit2'' \<and>
   map_option to_kebab_case (to_pascal_case ''x-my-qbit2'') = Some ''x-my-qbit2''"
proof -
  have k: "is_kebab_form ''x-my-qbit2''"
    by code_simp
  have b: "boundaries_ok (split_on (CHR ''-'') ''x-my-qbit2'')"
    by code_simp
  have p: "to_pascal_case ''x-my-qbit2'' = Some ''XMyQbit2''"
    by code_simp
  show ?thesis
    using k b p kebab_pascal_round_trip [OF k b] by simp
qed

section \<open>Running the replacement pass twice\<close>


















section \<open>The script and its early exits\<close>

text \<open>
  C8. When \<open>pom.xml\<close> is absent from the repository root, \<open>main\<close> raises \<open>SystemExit\<close> with
  its message and leaves the world as it found it: no library call that changes the
  filesystem was made, nothing was read from the terminal and nothing written.
\<close>

theorem main_without_pom:
  "\<not> exists api (joinpath api repo (path_of api [''pom.xml''])) (filesystem w) \<Longrightarrow>
     main api repo w = (Inl (SystemExit ''Run from the template repo; pom.xml not found.''), w)"
  by (simp add: main_def Let_def and_then_def fs_get_def raise_def)

theorem main_without_pom_witness:
  "\<not> exists flat_api (joinpath flat_api ''repo'' (path_of flat_api [''pom.xml'']))
       (filesystem (demo_docs\<lparr>stdin := [''my-feature'']\<rparr>)) \<and>
   main flat_api ''repo'' (demo_docs\<lparr>stdin := [''my-feature'']\<rparr>) =
     (Inl (SystemExit ''Run from the template repo; pom.xml not found.''),
      demo_docs\<lparr>stdin := [''my-feature'']\<rparr>)"
proof -
  have h: "\<not> exists flat_api (joinpath flat_api ''repo'' (path_of flat_api [''pom.xml'']))
       (filesystem (demo_docs\<lparr>stdin := [''my-feature'']\<rparr>))"
    by (simp add: flat_api_def demo_docs_def)
  show ?thesis
    using h main_without_pom [OF h] by simp
qed

subsection \<open>The confirmation\<close>

lemma and_then_Inr: "m w = (Inr x, w') \<Longrightarrow> and_then m k w = k x w'"
  by (simp add: and_then_def)

lemma and_then_Inl: "m w = (Inl e, w') \<Longrightarrow> and_then m k w = (Inl e, w')"
  by (simp add: and_then_def)

lemma print_run: "print s w = (Inr (), w\<lparr>stdout := stdout w @ s @ [CHR 0x0A]\<rparr>)"
  by (simp add: print_def)

lemma print_all_run:
  "print_all ls w = (Inr (), w\<lparr>stdout := stdout w @ concat (map (\<lambda>l. l @ [CHR 0x0A]) ls)\<rparr>)"
  unfolding print_all_def
  by (induction ls arbitrary: w) (simp_all add: ret_def and_then_def print_def)

lemma input_run:
  "stdin w \<noteq> [] \<Longrightarrow>
     input msg w = (Inr (hd (stdin w)), w\<lparr>stdout := stdout w @ msg, stdin := tl (stdin w)\<rparr>)"
  by (cases "stdin w") (simp_all add: input_def Let_def)

lemma prompt_run:
  "stdin w \<noteq> [] \<Longrightarrow>
     prompt msg dflt w =
       (Inr (if strip (hd (stdin w)) \<noteq> [] then strip (hd (stdin w)) else dflt),
        w\<lparr>stdout := stdout w @ msg @ '' ['' @ dflt @ '']: '', stdin := tl (stdin w)\<rparr>)"
  by (simp add: prompt_def and_then_def input_run ret_def Let_def)

lemma main_run:
  assumes pom: "exists api (joinpath api repo (path_of api [''pom.xml''])) (filesystem w)"
      and inp: "stdin w = a1 # a2 # a3 # a4 # answer # rest"
      and pascal: "to_pascal_case (if strip a1 \<noteq> [] then strip a1 else ''my-qbit'') = Some pascal_name"
      and camel: "to_camel_case (if strip a1 \<noteq> [] then strip a1 else ''my-qbit'') = Some camel_name"
  shows "\<exists>out. main api repo w =
     (let qbit_name = (if strip a1 \<noteq> [] then strip a1 else ''my-qbit'');
          group_id = (if strip a2 \<noteq> [] then strip a2 else ''com.kingsrook.qbits'');
          artifact_id = (if strip a3 \<noteq> [] then strip a3 else ''qbit-'' @ to_kebab_case qbit_name);
          github_org = (if strip a4 \<noteq> [] then strip a4 else ''qrun-io'')
      in (if lower (strip answer) = ''n'' then print ''Aborted.''
          else customize api repo pascal_name camel_name
                (to_package_name qbit_name) group_id artifact_id github_org))
       (w\<lparr>stdout := stdout w @ out, stdin := rest\<rparr>)"
  apply (rule exI)
  apply (simp add: main_def Let_def and_then_def fs_get_def print_all_run prompt_run input_run pom inp
      pascal camel split del: if_split cong: if_cong)
  done

lemma lower_chr_eq_n: "lower_chr c = CHR ''n'' \<longleftrightarrow> c = CHR ''n'' \<or> c = CHR ''N''"
proof
  assume a: "lower_chr c = CHR ''n''"
  show "c = CHR ''n'' \<or> c = CHR ''N''"
  proof (cases "isupper c")
    case True
    have "(of_char (lower_chr c) :: nat) = 110"
      by (simp add: a)
    with of_char_lower_chr[OF True] have "(of_char c :: nat) = 78"
      by simp
    then have "(of_char c :: nat) = of_char (CHR ''N'')" by simp
    then have "c = CHR ''N''" by (simp only: of_char_eq_iff)
    then show ?thesis ..
  next
    case False
    with a show ?thesis by (simp add: lower_chr_def)
  qed
next
  assume "c = CHR ''n'' \<or> c = CHR ''N''"
  moreover have "lower_chr (CHR ''n'') = CHR ''n''" "lower_chr (CHR ''N'') = CHR ''n''"
    by code_simp+
  ultimately show "lower_chr c = CHR ''n''"
    by auto
qed

lemma not_space_n: "\<not> is_space (CHR ''n'')" "\<not> is_space (CHR ''N'')"
  by (simp_all add: is_space_def)

lemma strip_surrounded:
  assumes "\<forall>x\<in>set pre. is_space x" "\<forall>x\<in>set post. is_space x" "\<not> is_space c"
  shows "strip (pre @ c # post) = [c]"
proof -
  have "dropWhile is_space (pre @ c # post) = c # post"
    using assms by (simp add: dropWhile_append3)
  moreover have "dropWhile is_space (rev post @ [c]) = [c]"
    using assms by (simp add: dropWhile_append3)
  ultimately show ?thesis by (simp add: strip_def)
qed

lemma strip_single:
  assumes "strip s = [c]"
  shows "\<exists>pre post. s = pre @ c # post \<and> (\<forall>x\<in>set pre. is_space x) \<and> (\<forall>x\<in>set post. is_space x)"
proof -
  let ?d = "dropWhile is_space s"
  let ?t = "takeWhile is_space (rev ?d)"
  have "rev (dropWhile is_space (rev ?d)) = [c]"
    using assms by (simp add: strip_def)
  then have "dropWhile is_space (rev ?d) = [c]"
    by (simp add: rev_singleton_conv)
  then have "rev ?d = ?t @ [c]"
    using takeWhile_dropWhile_id[of is_space "rev ?d"] by simp
  then have "rev (rev ?d) = rev (?t @ [c])" by simp
  then have "?d = c # rev ?t" by simp
  then have "s = takeWhile is_space s @ c # rev ?t"
    using takeWhile_dropWhile_id[of is_space s] by simp
  moreover have "\<forall>x\<in>set (takeWhile is_space s). is_space x"
    by (auto dest: set_takeWhileD)
  moreover have "\<forall>x\<in>set (rev ?t). is_space x"
    by (auto dest: set_takeWhileD)
  ultimately show ?thesis by blast
qed

lemma declines_iff:
  "lower (strip answer) = ''n'' \<longleftrightarrow>
     (\<exists>pre c post. answer = pre @ c # post \<and> (c = CHR ''n'' \<or> c = CHR ''N'') \<and>
        (\<forall>x\<in>set pre. is_space x) \<and> (\<forall>x\<in>set post. is_space x))"
proof
  assume "lower (strip answer) = ''n''"
  then obtain c where c: "strip answer = [c]" "lower_chr c = CHR ''n''"
    by (auto simp: lower_def)
  from strip_single[OF c(1)] c(2) show "\<exists>pre c post. answer = pre @ c # post \<and>
      (c = CHR ''n'' \<or> c = CHR ''N'') \<and> (\<forall>x\<in>set pre. is_space x) \<and> (\<forall>x\<in>set post. is_space x)"
    unfolding lower_chr_eq_n by blast
next
  assume "\<exists>pre c post. answer = pre @ c # post \<and> (c = CHR ''n'' \<or> c = CHR ''N'') \<and>
        (\<forall>x\<in>set pre. is_space x) \<and> (\<forall>x\<in>set post. is_space x)"
  then obtain pre c post where a: "answer = pre @ c # post" "c = CHR ''n'' \<or> c = CHR ''N''"
    "\<forall>x\<in>set pre. is_space x" "\<forall>x\<in>set post. is_space x" by blast
  then have "\<not> is_space c" using not_space_n by blast
  then have "strip answer = [c]" using a strip_surrounded by blast
  then show "lower (strip answer) = ''n''"
    using a(2) lower_chr_eq_n[of c] by (simp add: lower_def)
qed

lemma demo_pom: "exists flat_api (joinpath flat_api ''repo'' (path_of flat_api [''pom.xml'']))
    (filesystem (demo_world answers))"
  by (simp add: flat_api_def demo_world_def)

text \<open>
  C4. The claim: the script aborts exactly when the answer to the confirmation prompt is
  the string \<open>n\<close>, and proceeds on every other answer, \<open>N\<close> included. The answer is
  stripped and put in lower case before it is compared: on the answer \<open>N\<close> the script
  prints \<open>Aborted.\<close> and returns, having made no call that changes the filesystem.
\<close>

theorem confirmation_capital_n_counterexample:
  "''N'' \<noteq> ''n'' \<and>
   fst (main flat_api ''repo'' (demo_world [''my-feature'', ''com.acme'', '''', '''', ''N''])) = Inr () \<and>
   fs_calls (snd (main flat_api ''repo'' (demo_world [''my-feature'', ''com.acme'', '''', '''', ''N'']))) = [] \<and>
   filesystem (snd (main flat_api ''repo'' (demo_world [''my-feature'', ''com.acme'', '''', '''', ''N'']))) =
     [(''repo/pom.xml'', ''<name>QBit Todo</name>'')] \<and>
   suffix (''Aborted.'' @ [CHR 0x0A])
     (stdout (snd (main flat_api ''repo'' (demo_world [''my-feature'', ''com.acme'', '''', '''', ''N'']))))"
proof -
  let ?w = "demo_world [''my-feature'', ''com.acme'', '''', '''', ''N'']"
  have n: "lower (strip ''N'') = ''n''" by code_simp
  have i: "stdin ?w = [''my-feature'', ''com.acme'', '''', '''', ''N'']"
    by (simp add: demo_world_def)
  have p: "to_pascal_case (if strip ''my-feature'' \<noteq> [] then strip ''my-feature'' else ''my-qbit'') =
      Some ''MyFeature''"
    and c: "to_camel_case (if strip ''my-feature'' \<noteq> [] then strip ''my-feature'' else ''my-qbit'') =
      Some ''myFeature''"
    by code_simp+
  from main_run[OF demo_pom i p c]
  obtain out where "main flat_api ''repo'' ?w = print ''Aborted.'' (?w\<lparr>stdout := stdout ?w @ out, stdin := []\<rparr>)"
    unfolding Let_def n by auto
  then have "main flat_api ''repo'' ?w =
      (Inr (), ?w\<lparr>stdout := (stdout ?w @ out) @ ''Aborted.'' @ [CHR 0x0A], stdin := []\<rparr>)"
    by (simp add: print_def)
  then show ?thesis
    by (simp add: demo_world_def suffix_def)
qed

text \<open>
  C4 as amended. With \<open>pom.xml\<close> present, five lines to read, the last of them the answer
  to the confirmation prompt, and a name whose PascalCase and camelCase forms are strings
  of code points below 256: when the answer is \<open>n\<close> or \<open>N\<close>, possibly surrounded by
  whitespace (the next-line control U+0085 and the no-break space U+00A0 included),
  \<open>main\<close> prints \<open>Aborted.\<close> and returns, the filesystem untouched and no changing call
  made; on every other answer it goes on with the customization, for the names and
  coordinates derived from the first four lines, the filesystem being untouched up to
  there.
\<close>

theorem confirmation_decides:
  assumes pom: "exists api (joinpath api repo (path_of api [''pom.xml''])) (filesystem w)"
      and inp: "stdin w = a1 # a2 # a3 # a4 # answer # rest"
      and pascal: "to_pascal_case (if strip a1 \<noteq> [] then strip a1 else ''my-qbit'') = Some pascal_name"
      and camel: "to_camel_case (if strip a1 \<noteq> [] then strip a1 else ''my-qbit'') = Some camel_name"
  shows "\<exists>out.
     (let qbit_name = (if strip a1 \<noteq> [] then strip a1 else ''my-qbit'');
          group_id = (if strip a2 \<noteq> [] then strip a2 else ''com.kingsrook.qbits'');
          artifact_id = (if strip a3 \<noteq> [] then strip a3 else ''qbit-'' @ to_kebab_case qbit_name);
          github_org = (if strip a4 \<noteq> [] then strip a4 else ''qrun-io'')
      in if (\<exists>pre c post. answer = pre @ c # post \<and> (c = CHR ''n'' \<or> c = CHR ''N'') \<and>
               (\<forall>x\<in>set pre. is_space x) \<and> (\<forall>x\<in>set post. is_space x))
         then main api repo w =
                (Inr (), w\<lparr>stdout := stdout w @ out @ ''Aborted.'' @ [CHR 0x0A], stdin := rest\<rparr>)
         else main api repo w =
                customize api repo pascal_name camel_name
                  (to_package_name qbit_name) group_id artifact_id github_org
                  (w\<lparr>stdout := stdout w @ out, stdin := rest\<rparr>))"
proof -
  from main_run[OF pom inp pascal camel] obtain out where
    m: "main api repo w =
     (let qbit_name = (if strip a1 \<noteq> [] then strip a1 else ''my-qbit'');
          group_id = (if strip a2 \<noteq> [] then strip a2 else ''com.kingsrook.qbits'');
          artifact_id = (if strip a3 \<noteq> [] then strip a3 else ''qbit-'' @ to_kebab_case qbit_name);
          github_org = (if strip a4 \<noteq> [] then strip a4 else ''qrun-io'')
      in (if lower (strip answer) = ''n'' then print ''Aborted.''
          else customize api repo pascal_name camel_name
                (to_package_name qbit_name) group_id artifact_id github_org))
       (w\<lparr>stdout := stdout w @ out, stdin := rest\<rparr>)"
    by blast
  show ?thesis
    unfolding declines_iff[symmetric] Let_def
    by (rule exI[of _ out]) (simp add: m Let_def print_def)
qed

theorem confirmation_decides_witness:
  "fst (main flat_api ''repo''
     (demo_world [''my-feature'', ''com.acme'', '''', '''', [CHR 0xA0, CHR ''n'', CHR 0x85]])) = Inr () \<and>
   fs_calls (snd (main flat_api ''repo''
     (demo_world [''my-feature'', ''com.acme'', '''', '''', [CHR 0xA0, CHR ''n'', CHR 0x85]]))) = [] \<and>
   filesystem (snd (main flat_api ''repo''
     (demo_world [''my-feature'', ''com.acme'', '''', '''', [CHR 0xA0, CHR ''n'', CHR 0x85]]))) =
     [(''repo/pom.xml'', ''<name>QBit Todo</name>'')] \<and>
   suffix (''Aborted.'' @ [CHR 0x0A])
     (stdout (snd (main flat_api ''repo''
       (demo_world [''my-feature'', ''com.acme'', '''', '''', [CHR 0xA0, CHR ''n'', CHR 0x85]]))))"
proof -
  let ?a = "[CHR 0xA0, CHR ''n'', CHR 0x85]"
  let ?w = "demo_world [''my-feature'', ''com.acme'', '''', '''', ?a]"
  have i: "stdin ?w = [''my-feature'', ''com.acme'', '''', '''', ?a]"
    by (simp add: demo_world_def)
  have sp: "is_space (CHR 0xA0)" "is_space (CHR 0x85)"
    by (simp_all add: is_space_def)
  have "?a = [CHR 0xA0] @ CHR ''n'' # [CHR 0x85] \<and> (CHR ''n'' = CHR ''n'' \<or> CHR ''n'' = CHR ''N'') \<and>
      (\<forall>x\<in>set [CHR 0xA0]. is_space x) \<and> (\<forall>x\<in>set [CHR 0x85]. is_space x)"
    using sp by simp
  then have d: "\<exists>pre c post. ?a = pre @ c # post \<and> (c = CHR ''n'' \<or> c = CHR ''N'') \<and>
      (\<forall>x\<in>set pre. is_space x) \<and> (\<forall>x\<in>set post. is_space x)"
    by blast
  have p: "to_pascal_case (if strip ''my-feature'' \<noteq> [] then strip ''my-feature'' else ''my-qbit'') =
      Some ''MyFeature''"
    and c: "to_camel_case (if strip ''my-feature'' \<noteq> [] then strip ''my-feature'' else ''my-qbit'') =
      Some ''myFeature''"
    by code_simp+
  from confirmation_decides [OF demo_pom i p c] obtain out where
    "main flat_api ''repo'' ?w =
       (Inr (), ?w\<lparr>stdout := stdout ?w @ out @ ''Aborted.'' @ [CHR 0x0A], stdin := []\<rparr>)"
    unfolding Let_def if_P[OF d] by blast
  then show ?thesis
    by (simp add: demo_world_def suffix_def)
qed

section \<open>Writing back the files that changed\<close>

lemma replay_append: "replay api (cs @ ds) fs = replay api ds (replay api cs fs)"
  by (simp add: replay_def)

lemma replace_in_file_step:
  assumes "replace_in_file api replacements g w = (r, w1)"
  shows "(needs_write api replacements g (filesystem w) \<longrightarrow>
            (\<exists>text. read_text api g (filesystem w) = Inr text \<and>
               fs_calls w1 = fs_calls w @ [WriteText g (apply_replacements replacements text)] \<and>
               filesystem w1 =
                 snd (write_text api g (apply_replacements replacements text) (filesystem w)))) \<and>
         (\<not> needs_write api replacements g (filesystem w) \<longrightarrow> w1 = w)"
proof (cases "exists api g (filesystem w)")
  case False
  then show ?thesis
    using assms by (simp add: replace_in_file_def needs_write_def and_then_def fs_get_def ret_def)
next
  case True
  show ?thesis
  proof (cases "read_text api g (filesystem w)")
    case (Inl e)
    then show ?thesis
      using assms True
      by (cases e) (auto simp: replace_in_file_def needs_write_def and_then_def fs_get_def
          ret_def raise_def)
  next
    case (Inr body)
    show ?thesis
    proof (cases "apply_replacements replacements body = body")
      case same: True
      then show ?thesis
        using assms True Inr
        by (auto simp: replace_in_file_def needs_write_def and_then_def fs_get_def ret_def)
    next
      case differs: False
      obtain r' fs' where wr:
        "write_text api g (apply_replacements replacements body) (filesystem w) = (r', fs')"
        by (cases "write_text api g (apply_replacements replacements body) (filesystem w)")
      show ?thesis
        using assms True Inr differs wr
        by (cases r')
          (auto simp: replace_in_file_def needs_write_def and_then_def fs_get_def ret_def
            fs_do_def print_def Let_def)
    qed
  qed
qed

lemma needs_write_cong:
  "exists api f fs' = exists api f fs \<Longrightarrow> read_text api f fs' = read_text api f fs \<Longrightarrow>
     needs_write api replacements f fs' = needs_write api replacements f fs"
  by (simp add: needs_write_def)

lemma replace_in_files_Nil: "replace_in_files api [] replacements w = (Inr (), w)"
  by (simp add: replace_in_files_def ret_def)

lemma replace_in_files_Cons:
  "replace_in_files api (g # files) replacements w =
     (case replace_in_file api replacements g w of
        (Inl e, w1) \<Rightarrow> (Inl e, w1)
      | (Inr u, w1) \<Rightarrow> replace_in_files api files replacements w1)"
  by (simp add: replace_in_files_def and_then_def split: prod.splits sum.splits)

lemma replace_in_files_loop:
  assumes local: "writes_are_local api"
  shows "replace_in_files api files replacements w = (r, w') \<Longrightarrow>
     \<exists>cs. fs_calls w' = fs_calls w @ cs \<and> filesystem w' = replay api cs (filesystem w) \<and>
       (\<forall>pre c post. cs = pre @ c # post \<longrightarrow>
          write_of api replacements files (replay api pre (filesystem w)) c) \<and>
       (\<forall>f. \<not> needs_write api replacements f (filesystem w) \<longrightarrow>
          (\<forall>text. WriteText f text \<notin> set cs) \<and>
          exists api f (filesystem w') = exists api f (filesystem w) \<and>
          read_text api f (filesystem w') = read_text api f (filesystem w)) \<and>
       (r = Inr () \<longrightarrow>
          (\<forall>f text. f \<in> set files \<and> needs_write api replacements f (filesystem w) \<and>
             read_text api f (filesystem w) = Inr text \<longrightarrow>
             WriteText f (apply_replacements replacements text) \<in> set cs))"
proof (induction files arbitrary: w)
  case Nil
  then have "w' = w" by (simp add: replace_in_files_Nil)
  then show ?case by (intro exI[of _ "[]"]) (simp add: replay_def)
next
  case (Cons g files)
  obtain r1 w1 where s1: "replace_in_file api replacements g w = (r1, w1)"
    by (cases "replace_in_file api replacements g w")
  note step = replace_in_file_step[OF s1]
  let ?fs = "filesystem w" and ?fs1 = "filesystem w1"
  obtain d where d: "fs_calls w1 = fs_calls w @ d" "?fs1 = replay api d ?fs"
    "needs_write api replacements g ?fs \<longrightarrow>
       (\<exists>body. exists api g ?fs \<and> read_text api g ?fs = Inr body \<and>
          apply_replacements replacements body \<noteq> body \<and>
          d = [WriteText g (apply_replacements replacements body)] \<and>
          ?fs1 = snd (write_text api g (apply_replacements replacements body) ?fs))"
    "\<not> needs_write api replacements g ?fs \<longrightarrow> d = [] \<and> ?fs1 = ?fs"
  proof (cases "needs_write api replacements g ?fs")
    case True
    with step obtain body where t: "read_text api g ?fs = Inr body"
      "fs_calls w1 = fs_calls w @ [WriteText g (apply_replacements replacements body)]"
      "?fs1 = snd (write_text api g (apply_replacements replacements body) ?fs)"
      by blast
    have "apply_replacements replacements body \<noteq> body" "exists api g ?fs"
      using True t(1) by (simp_all add: needs_write_def)
    with t True show ?thesis
      by (intro that[of "[WriteText g (apply_replacements replacements body)]"])
         (auto simp: replay_def)
  next
    case False
    with step have "w1 = w" by blast
    with False show ?thesis by (intro that[of "[]"]) (auto simp: replay_def)
  qed
  have other: "exists api f ?fs1 = exists api f ?fs \<and> read_text api f ?fs1 = read_text api f ?fs"
    if "f \<noteq> g" for f
  proof (cases "needs_write api replacements g ?fs")
    case True
    with d(3) obtain body where
      "?fs1 = snd (write_text api g (apply_replacements replacements body) ?fs)" by blast
    then show ?thesis
      using local that unfolding writes_are_local_def by metis
  next
    case False
    with d(4) show ?thesis by simp
  qed
  have keep: "needs_write api replacements f ?fs1 = needs_write api replacements f ?fs"
    if "f \<noteq> g \<or> \<not> needs_write api replacements g ?fs" for f
  proof (cases "f = g")
    case True
    with that d(4) show ?thesis by simp
  next
    case False
    then show ?thesis using other by (intro needs_write_cong) auto
  qed
  have first: "write_of api replacements (g # files) ?fs c" if "c \<in> set d" for c
  proof -
    have "needs_write api replacements g ?fs" using that d(4) by auto
    with d(3) that show ?thesis by (auto simp: write_of_def)
  qed
  have nd: "WriteText f body \<notin> set d" if "\<not> needs_write api replacements f ?fs" for f body
  proof (cases "f = g")
    case True
    with that d(4) show ?thesis by simp
  next
    case False
    then show ?thesis using d(3,4) by (cases "needs_write api replacements g ?fs") auto
  qed
  have same: "exists api f ?fs1 = exists api f ?fs \<and> read_text api f ?fs1 = read_text api f ?fs"
    if "\<not> needs_write api replacements f ?fs" for f
  proof (cases "f = g")
    case True
    with that d(4) show ?thesis by simp
  next
    case False
    then show ?thesis by (rule other)
  qed
  show ?case
  proof (cases r1)
    case (Inl e)
    with Cons.prems s1 have end1: "r = Inl e" "w' = w1"
      by (simp_all add: replace_in_files_Cons)
    show ?thesis
    proof (intro exI[of _ d] conjI)
      show "fs_calls w' = fs_calls w @ d" using d(1) end1 by simp
      show "filesystem w' = replay api d ?fs" using d(2) end1 by simp
      show "\<forall>pre c post. d = pre @ c # post \<longrightarrow>
          write_of api replacements (g # files) (replay api pre ?fs) c"
      proof (intro allI impI)
        fix pre c post assume e: "d = pre @ c # post"
        then have "pre = []" "c \<in> set d"
          using d(3,4) by (cases "needs_write api replacements g ?fs"; cases pre; auto)+
        then show "write_of api replacements (g # files) (replay api pre ?fs) c"
          using first by (simp add: replay_def)
      qed
      show "\<forall>f. \<not> needs_write api replacements f ?fs \<longrightarrow>
          (\<forall>body. WriteText f body \<notin> set d) \<and>
          exists api f (filesystem w') = exists api f ?fs \<and>
          read_text api f (filesystem w') = read_text api f ?fs"
        using nd same end1 by simp
      show "r = Inr () \<longrightarrow>
          (\<forall>f body. f \<in> set (g # files) \<and> needs_write api replacements f ?fs \<and>
             read_text api f ?fs = Inr body \<longrightarrow>
             WriteText f (apply_replacements replacements body) \<in> set d)"
        using end1 by simp
    qed
  next
    case (Inr u)
    with Cons.prems s1 have s2: "replace_in_files api files replacements w1 = (r, w')"
      by (simp add: replace_in_files_Cons)
    from Cons.IH[OF s2] obtain cs where cs:
      "fs_calls w' = fs_calls w1 @ cs" "filesystem w' = replay api cs ?fs1"
      "\<forall>pre c post. cs = pre @ c # post \<longrightarrow>
          write_of api replacements files (replay api pre ?fs1) c"
      "\<forall>f. \<not> needs_write api replacements f ?fs1 \<longrightarrow>
          (\<forall>body. WriteText f body \<notin> set cs) \<and>
          exists api f (filesystem w') = exists api f ?fs1 \<and>
          read_text api f (filesystem w') = read_text api f ?fs1"
      "r = Inr () \<longrightarrow>
         (\<forall>f body. f \<in> set files \<and> needs_write api replacements f ?fs1 \<and>
          read_text api f ?fs1 = Inr body \<longrightarrow>
          WriteText f (apply_replacements replacements body) \<in> set cs)"
      by blast
    have later: "write_of api replacements (g # files) fs c"
      if "write_of api replacements files fs c" for fs c
      using that by (auto simp: write_of_def)
    show ?thesis
    proof (intro exI[of _ "d @ cs"] conjI)
      show "fs_calls w' = fs_calls w @ d @ cs" using cs(1) d(1) by simp
      show "filesystem w' = replay api (d @ cs) ?fs"
        using cs(2) d(2) by (simp add: replay_append)
      show "\<forall>pre c post. d @ cs = pre @ c # post \<longrightarrow>
          write_of api replacements (g # files) (replay api pre ?fs) c"
      proof (intro allI impI)
        fix pre c post assume e: "d @ cs = pre @ c # post"
        show "write_of api replacements (g # files) (replay api pre ?fs) c"
        proof (cases "length pre < length d")
          case True
          then have l: "length d = 1" "pre = []"
            using d(3,4) by (cases "needs_write api replacements g ?fs"; auto)+
          then have "c \<in> set d" using e by (cases d) auto
          then show ?thesis using first l by (simp add: replay_def)
        next
          case False
          then obtain pre' where p: "pre = d @ pre'" "cs = pre' @ c # post"
            using e by (auto simp: append_eq_append_conv2 Cons_eq_append_conv)
          have "write_of api replacements files (replay api pre' ?fs1) c"
            using cs(3) p(2) by blast
          then show ?thesis using p(1) d(2) later by (simp add: replay_append)
        qed
      qed
      show "\<forall>f. \<not> needs_write api replacements f ?fs \<longrightarrow>
          (\<forall>body. WriteText f body \<notin> set (d @ cs)) \<and>
          exists api f (filesystem w') = exists api f ?fs \<and>
          read_text api f (filesystem w') = read_text api f ?fs"
      proof (intro allI impI)
        fix f assume nf: "\<not> needs_write api replacements f ?fs"
        have k: "f \<noteq> g \<or> \<not> needs_write api replacements g ?fs" using nf by auto
        then have nf1: "\<not> needs_write api replacements f ?fs1" using keep nf by simp
        show "(\<forall>body. WriteText f body \<notin> set (d @ cs)) \<and>
          exists api f (filesystem w') = exists api f ?fs \<and>
          read_text api f (filesystem w') = read_text api f ?fs"
          using nd[OF nf] cs(4) nf1 same[OF nf] by simp
      qed
      show "r = Inr () \<longrightarrow>
          (\<forall>f body. f \<in> set (g # files) \<and> needs_write api replacements f ?fs \<and>
             read_text api f ?fs = Inr body \<longrightarrow>
             WriteText f (apply_replacements replacements body) \<in> set (d @ cs))"
      proof (intro allI impI)
        fix f body
        assume ok: "r = Inr ()"
        assume a: "f \<in> set (g # files) \<and> needs_write api replacements f ?fs \<and>
          read_text api f ?fs = Inr body"
        show "WriteText f (apply_replacements replacements body) \<in> set (d @ cs)"
        proof (cases "f = g")
          case True
          with a d(3) show ?thesis by auto
        next
          case False
          then have "f \<in> set files" using a by simp
          moreover have "needs_write api replacements f ?fs1" using keep[of f] False a by simp
          moreover have "read_text api f ?fs1 = Inr body" using other[OF False] a by simp
          ultimately show ?thesis using cs(5) ok by simp
        qed
      qed
    qed
  qed
qed

text \<open>
  The loop completes when no read raises an error other than \<open>UnicodeDecodeError\<close> and
  every write succeeds.
\<close>

lemma replace_in_files_completes:
  assumes reads: "\<And>f fs e. read_text api f fs = Inl e \<Longrightarrow> e = UnicodeDecodeError"
    and writes: "\<And>f body fs. fst (write_text api f body fs) = Inr ()"
  shows "fst (replace_in_files api files replacements w) = Inr ()"
proof (induction files arbitrary: w)
  case Nil
  show ?case by (simp add: replace_in_files_Nil)
next
  case (Cons g files)
  have "fst (replace_in_file api replacements g w) = Inr ()"
  proof (cases "read_text api g (filesystem w)")
    case (Inl e)
    with reads have "e = UnicodeDecodeError" by blast
    with Inl show ?thesis
      by (simp add: replace_in_file_def and_then_def fs_get_def ret_def)
  next
    case (Inr body)
    have "fst (write_text api g (apply_replacements replacements body) (filesystem w)) = Inr ()"
      by (rule writes)
    with Inr show ?thesis
      by (auto simp: replace_in_file_def and_then_def fs_get_def ret_def fs_do_def print_def
          Let_def split: prod.splits sum.splits)
  qed
  then obtain w1 where "replace_in_file api replacements g w = (Inr (), w1)"
    by (cases "replace_in_file api replacements g w") auto
  then show ?case using Cons.IH[of w1] by (simp add: replace_in_files_Cons)
qed

lemma flat_api_local: "writes_are_local flat_api"
  by (simp add: writes_are_local_def flat_api_def)

text \<open>
  C7. The loop of \<open>replace_in_files\<close>, for library calls of which it is only assumed that
  writing one file leaves every other path as it was. Whatever the outcome of the loop:
  the calls it makes are the writes \<open>cs\<close>, and the filesystem at the end is what these
  writes give, in order; each of them is made to a file of the list that needs a write in
  the filesystem of that moment, and writes the replaced text of what is read then; a
  path that needs no write at the start - a file whose text the table leaves as it is, a
  file that does not exist or is not read as text - is never written, and exists and
  reads at the end as at the start. When the loop completes, a file of the list is
  written if and only if it needs a write at the start, and the replaced text of its
  content at the start is written to it. A loop that a read or a write ends with an error
  leaves the files after that one unwritten.
\<close>

theorem write_back_iff_changed:
  assumes "writes_are_local api"
    and "replace_in_files api files replacements w = (r, w')"
  shows "\<exists>cs. fs_calls w' = fs_calls w @ cs \<and>
     filesystem w' = replay api cs (filesystem w) \<and>
     (\<forall>pre c post. cs = pre @ c # post \<longrightarrow>
        write_of api replacements files (replay api pre (filesystem w)) c) \<and>
     (\<forall>f. \<not> needs_write api replacements f (filesystem w) \<longrightarrow>
        (\<forall>text. WriteText f text \<notin> set cs) \<and>
        exists api f (filesystem w') = exists api f (filesystem w) \<and>
        read_text api f (filesystem w') = read_text api f (filesystem w)) \<and>
     (r = Inr () \<longrightarrow>
        (\<forall>f\<in>set files.
           ((\<exists>text. WriteText f text \<in> set cs) \<longleftrightarrow>
              needs_write api replacements f (filesystem w)) \<and>
           (\<forall>text. needs_write api replacements f (filesystem w) \<and>
              read_text api f (filesystem w) = Inr text \<longrightarrow>
              WriteText f (apply_replacements replacements text) \<in> set cs)))"
proof -
  from replace_in_files_loop[OF assms] obtain cs where cs:
    "fs_calls w' = fs_calls w @ cs" "filesystem w' = replay api cs (filesystem w)"
    "\<forall>pre c post. cs = pre @ c # post \<longrightarrow>
        write_of api replacements files (replay api pre (filesystem w)) c"
    "\<forall>f. \<not> needs_write api replacements f (filesystem w) \<longrightarrow>
        (\<forall>body. WriteText f body \<notin> set cs) \<and>
        exists api f (filesystem w') = exists api f (filesystem w) \<and>
        read_text api f (filesystem w') = read_text api f (filesystem w)"
    "r = Inr () \<longrightarrow>
       (\<forall>f body. f \<in> set files \<and> needs_write api replacements f (filesystem w) \<and>
          read_text api f (filesystem w) = Inr body \<longrightarrow>
          WriteText f (apply_replacements replacements body) \<in> set cs)"
    by blast
  have iff: "(\<exists>body. WriteText f body \<in> set cs) \<longleftrightarrow>
      needs_write api replacements f (filesystem w)"
    if ok: "r = Inr ()" and f: "f \<in> set files" for f
  proof
    assume "\<exists>body. WriteText f body \<in> set cs"
    then show "needs_write api replacements f (filesystem w)" using cs(4) by blast
  next
    assume n: "needs_write api replacements f (filesystem w)"
    then obtain body where "read_text api f (filesystem w) = Inr body"
      by (cases "read_text api f (filesystem w)") (auto simp: needs_write_def)
    with n f ok cs(5) show "\<exists>body. WriteText f body \<in> set cs" by blast
  qed
  show ?thesis
  proof (intro exI[of _ cs] conjI)
    show "r = Inr () \<longrightarrow>
        (\<forall>f\<in>set files.
           ((\<exists>body. WriteText f body \<in> set cs) \<longleftrightarrow>
              needs_write api replacements f (filesystem w)) \<and>
           (\<forall>body. needs_write api replacements f (filesystem w) \<and>
              read_text api f (filesystem w) = Inr body \<longrightarrow>
              WriteText f (apply_replacements replacements body) \<in> set cs))"
      using iff cs(5) by blast
  qed (use cs in blast)+
qed

theorem write_back_iff_changed_witness:
  "writes_are_local flat_api \<and>
   replace_in_files flat_api [''README.md'', ''LICENSE.md'', ''NOTICE.md'']
       [(''Todo QBit'', ''MyFeature QBit''), (''Todo'', ''MyFeature'')] demo_docs =
     (Inr (),
      \<lparr>filesystem = [(''README.md'', ''The MyFeature QBit''), (''README.md'', ''The Todo QBit''),
                     (''LICENSE.md'', ''MIT'')],
       fs_calls = [WriteText ''README.md'' ''The MyFeature QBit''],
       stdin = [], stdout = ''  Updated: README.md'' @ [CHR 0x0A]\<rparr>) \<and>
   needs_write flat_api [(''Todo QBit'', ''MyFeature QBit''), (''Todo'', ''MyFeature'')]
     ''README.md'' (filesystem demo_docs) \<and>
   \<not> needs_write flat_api [(''Todo QBit'', ''MyFeature QBit''), (''Todo'', ''MyFeature'')]
     ''LICENSE.md'' (filesystem demo_docs) \<and>
   \<not> needs_write flat_api [(''Todo QBit'', ''MyFeature QBit''), (''Todo'', ''MyFeature'')]
     ''NOTICE.md'' (filesystem demo_docs) \<and>
   (\<exists>cs. fs_calls (snd (replace_in_files flat_api [''README.md'', ''LICENSE.md'', ''NOTICE.md'']
              [(''Todo QBit'', ''MyFeature QBit''), (''Todo'', ''MyFeature'')] demo_docs)) = cs \<and>
      filesystem (snd (replace_in_files flat_api [''README.md'', ''LICENSE.md'', ''NOTICE.md'']
              [(''Todo QBit'', ''MyFeature QBit''), (''Todo'', ''MyFeature'')] demo_docs)) =
        replay flat_api cs (filesystem demo_docs) \<and>
      WriteText ''README.md'' ''The MyFeature QBit'' \<in> set cs \<and>
      (\<forall>body. WriteText ''LICENSE.md'' body \<notin> set cs) \<and>
      (\<forall>body. WriteText ''NOTICE.md'' body \<notin> set cs)) \<and>
   read_text flat_api ''README.md''
     (filesystem (snd (replace_in_files flat_api [''README.md'', ''LICENSE.md'', ''NOTICE.md'']
        [(''Todo QBit'', ''MyFeature QBit''), (''Todo'', ''MyFeature'')] demo_docs))) =
     Inr ''The MyFeature QBit'' \<and>
   read_text flat_api ''LICENSE.md''
     (filesystem (snd (replace_in_files flat_api [''README.md'', ''LICENSE.md'', ''NOTICE.md'']
        [(''Todo QBit'', ''MyFeature QBit''), (''Todo'', ''MyFeature'')] demo_docs))) =
     Inr ''MIT''"
proof -
  let ?t = "[(''Todo QBit'', ''MyFeature QBit''), (''Todo'', ''MyFeature'')]"
  let ?files = "[''README.md'', ''LICENSE.md'', ''NOTICE.md'']"
  let ?w' = "\<lparr>filesystem = [(''README.md'', ''The MyFeature QBit''),
                     (''README.md'', ''The Todo QBit''), (''LICENSE.md'', ''MIT'')],
       fs_calls = [WriteText ''README.md'' ''The MyFeature QBit''],
       stdin = [], stdout = ''  Updated: README.md'' @ [CHR 0x0A]\<rparr>"
  have a: "apply_replacements ?t ''The Todo QBit'' = ''The MyFeature QBit''"
      "apply_replacements ?t ''MIT'' = ''MIT''"
    by code_simp+
  have s1: "replace_in_file flat_api ?t ''README.md'' demo_docs = (Inr (), ?w')"
    by (simp add: replace_in_file_def and_then_def fs_get_def fs_do_def ret_def print_def
        flat_api_def demo_docs_def a Let_def)
  have s2: "replace_in_file flat_api ?t ''LICENSE.md'' ?w' = (Inr (), ?w')"
    by (simp add: replace_in_file_def and_then_def fs_get_def ret_def flat_api_def a Let_def)
  have s3: "replace_in_file flat_api ?t ''NOTICE.md'' ?w' = (Inr (), ?w')"
    by (simp add: replace_in_file_def and_then_def fs_get_def ret_def flat_api_def)
  have run: "replace_in_files flat_api ?files ?t demo_docs = (Inr (), ?w')"
    by (simp only: replace_in_files_Cons replace_in_files_Nil s1 s2 s3 prod.case sum.case)
  have n: "needs_write flat_api ?t ''README.md'' (filesystem demo_docs)"
      "\<not> needs_write flat_api ?t ''LICENSE.md'' (filesystem demo_docs)"
      "\<not> needs_write flat_api ?t ''NOTICE.md'' (filesystem demo_docs)"
    by (simp_all add: needs_write_def flat_api_def demo_docs_def a)
  have rd: "read_text flat_api ''README.md'' (filesystem demo_docs) = Inr ''The Todo QBit''"
    by (simp add: flat_api_def demo_docs_def)
  from write_back_iff_changed [OF flat_api_local run] obtain cs where cs:
    "fs_calls ?w' = fs_calls demo_docs @ cs"
    "filesystem ?w' = replay flat_api cs (filesystem demo_docs)"
    "\<forall>f. \<not> needs_write flat_api ?t f (filesystem demo_docs) \<longrightarrow>
        (\<forall>body. WriteText f body \<notin> set cs) \<and>
        exists flat_api f (filesystem ?w') = exists flat_api f (filesystem demo_docs) \<and>
        read_text flat_api f (filesystem ?w') = read_text flat_api f (filesystem demo_docs)"
    "\<forall>f\<in>set ?files.
           ((\<exists>body. WriteText f body \<in> set cs) \<longleftrightarrow>
              needs_write flat_api ?t f (filesystem demo_docs)) \<and>
           (\<forall>body. needs_write flat_api ?t f (filesystem demo_docs) \<and>
              read_text flat_api f (filesystem demo_docs) = Inr body \<longrightarrow>
              WriteText f (apply_replacements ?t body) \<in> set cs)"
    by blast
  have c0: "fs_calls ?w' = cs" using cs(1) by (simp add: demo_docs_def)
  have w1: "WriteText ''README.md'' ''The MyFeature QBit'' \<in> set cs"
    using cs(4) n(1) rd a(1) by auto
  have w2: "\<forall>body. WriteText ''LICENSE.md'' body \<notin> set cs"
    "\<forall>body. WriteText ''NOTICE.md'' body \<notin> set cs"
    using cs(3) n(2,3) by blast+
  have r2: "read_text flat_api ''LICENSE.md'' (filesystem ?w') = Inr ''MIT''"
    using cs(3) n(2) by (simp add: flat_api_def demo_docs_def)
  have r1: "read_text flat_api ''README.md'' (filesystem ?w') = Inr ''The MyFeature QBit''"
    by (simp add: flat_api_def)
  show ?thesis
    unfolding run snd_conv
    using flat_api_local n c0 cs(2) w1 w2 r1 r2 by (intro conjI exI[of _ cs]) simp_all
qed

end
